theory Spec2Isabelle
  imports Complex_Main "HOL-Library.Multiset"
begin

section \<open>Data model (types.ts)\<close>

text \<open>
  The interfaces \<^verbatim>\<open>Player\<close>, \<^verbatim>\<open>Court\<close>, \<^verbatim>\<open>MatchRecord\<close> and \<^verbatim>\<open>RoundRecord\<close>.
  The fields \<^verbatim>\<open>id\<close>, \<^verbatim>\<open>name\<close>, \<^verbatim>\<open>type\<close> and \<^verbatim>\<open>timestamp\<close> occur in several
  interfaces (and \<^verbatim>\<open>id\<close> is a HOL constant), so they carry a prefix for the
  interface they belong to. A slot of \<^verbatim>\<open>playerIds\<close> is \<^verbatim>\<open>string | null\<close>:
  \<open>None\<close> is \<^verbatim>\<open>null\<close>. Records are extensible, so the \<open>more\<close> part of a court
  stands for every further property the JavaScript object may carry. \<^verbatim>\<open>level\<close> is an
  integer rating (1 to 18), timestamps are integer milliseconds, and \<^verbatim>\<open>status\<close> has
  the two values of its type.
\<close>

datatype Gender = Male | Female

datatype CourtType = HallA | HallB

datatype CourtStatus = Allocating | Playing

datatype Winner = TeamA | TeamB

record Player =
  p_id :: string
  p_name :: string
  isActive :: bool
  gender :: Gender
  level :: int
  avatar :: "string option"

record Court =
  c_id :: string
  c_name :: string
  c_type :: CourtType
  status :: CourtStatus
  playerIds :: "string option list"

record MatchRecord =
  courtName :: string
  playerNames :: "string list"
  m_timestamp :: int
  result :: "Winner option"

record RoundRecord =
  r_id :: string
  roundNumber :: int
  r_timestamp :: int
  matches :: "MatchRecord list"

section \<open>Array.prototype.sort with a comparator\<close>

text \<open>
  \<^verbatim>\<open>xs.sort(cmp)\<close> is stable (ECMAScript 2019): \<^verbatim>\<open>a\<close> comes before \<^verbatim>\<open>b\<close> when
  \<^verbatim>\<open>cmp(a, b) < 0\<close>, after it when \<^verbatim>\<open>cmp(a, b) > 0\<close>, and the two keep their
  order when \<^verbatim>\<open>cmp(a, b) = 0\<close>. For a consistent comparator that result is unique;
  it is computed here by inserting from the right.
\<close>

fun insort_cmp :: "('a \<Rightarrow> 'a \<Rightarrow> real) \<Rightarrow> 'a \<Rightarrow> 'a list \<Rightarrow> 'a list" where
  "insort_cmp cmp x [] = [x]"
| "insort_cmp cmp x (y # ys) =
     (if cmp x y \<le> 0 then x # y # ys else y # insort_cmp cmp x ys)"

definition sort_cmp :: "('a \<Rightarrow> 'a \<Rightarrow> real) \<Rightarrow> 'a list \<Rightarrow> 'a list" where
  "sort_cmp cmp xs = foldr (insort_cmp cmp) xs []"

section \<open>smartAllocation (utils.ts)\<close>

subsection \<open>Step 1: players locked on playing courts\<close>

text \<open>
  \<^verbatim>\<open>if (pid) playingPlayerIds.add(pid)\<close>: a slot is added when it is truthy, that is
  neither \<^verbatim>\<open>null\<close> nor the empty string.
\<close>

definition playingPlayerIds :: "'a Court_scheme list \<Rightarrow> string set" where
  "playingPlayerIds currentCourts =
     fold (\<lambda>c acc.
            if status c = Playing
            then fold (\<lambda>pid acc'. case pid of None \<Rightarrow> acc'
                                    | Some s \<Rightarrow> if s \<noteq> [] then insert s acc' else acc')
                      (playerIds c) acc
            else acc)
          currentCourts {}"

subsection \<open>Step 2: available players\<close>

definition availablePlayers :: "Player list \<Rightarrow> 'a Court_scheme list \<Rightarrow> Player list" where
  "availablePlayers allPlayers currentCourts =
     filter (\<lambda>p. isActive p \<and> p_id p \<notin> playingPlayerIds currentCourts) allPlayers"

subsection \<open>Step 3: statistics\<close>

record PlayerStat =
  player :: Player
  playedCount :: int
  restRounds :: int
  random_v :: real

text \<open>
  The two counters \<^verbatim>\<open>playedCount\<close> and \<^verbatim>\<open>lastRoundIndex\<close> are the state of the
  nested \<^verbatim>\<open>forEach\<close> over rounds and matches.
\<close>

definition scan_match :: "string \<Rightarrow> int \<Rightarrow> MatchRecord \<Rightarrow> int \<times> int \<Rightarrow> int \<times> int" where
  "scan_match nm rIdx match acc =
     (case acc of (played, lastRoundIndex) \<Rightarrow>
        if nm \<in> set (playerNames match) then (played + 1, rIdx)
        else (played, lastRoundIndex))"

definition scan_history :: "string \<Rightarrow> RoundRecord list \<Rightarrow> int \<times> int" where
  "scan_history nm history =
     fold (\<lambda>(rIdx, round) acc. fold (scan_match nm (int rIdx)) (matches round) acc)
          (enumerate 0 history) (0, - 1)"

definition playerStat :: "RoundRecord list \<Rightarrow> real \<Rightarrow> Player \<Rightarrow> PlayerStat" where
  "playerStat history r p =
     (case scan_history (p_name p) history of (played, lastRoundIndex) \<Rightarrow>
        \<lparr>player = p,
         playedCount = played,
         restRounds = (if lastRoundIndex = - 1 then 999
                       else int (length history) - lastRoundIndex),
         random_v = r\<rparr>)"

text \<open>
  \<^verbatim>\<open>Math.random()\<close> is called once for each available player, in order; \<open>rnd i\<close>
  is the value of the \<open>i\<close>-th call of this invocation.
\<close>

definition playerStats ::
  "(nat \<Rightarrow> real) \<Rightarrow> Player list \<Rightarrow> 'a Court_scheme list \<Rightarrow> RoundRecord list \<Rightarrow> PlayerStat list"
where
  "playerStats rnd allPlayers currentCourts history =
     map (\<lambda>(i, p). playerStat history (rnd i) p)
         (enumerate 0 (availablePlayers allPlayers currentCourts))"

subsection \<open>Step 4: priority order\<close>

definition cmp_priority :: "PlayerStat \<Rightarrow> PlayerStat \<Rightarrow> real" where
  "cmp_priority a b =
     (if playedCount a \<noteq> playedCount b then real_of_int (playedCount a - playedCount b)
      else if restRounds a \<noteq> restRounds b then real_of_int (restRounds b - restRounds a)
      else random_v b - random_v a)"

definition sortedStats ::
  "(nat \<Rightarrow> real) \<Rightarrow> Player list \<Rightarrow> 'a Court_scheme list \<Rightarrow> RoundRecord list \<Rightarrow> PlayerStat list"
where
  "sortedStats rnd allPlayers currentCourts history =
     sort_cmp cmp_priority (playerStats rnd allPlayers currentCourts history)"

subsection \<open>Steps 5 and 6: target courts and capacity\<close>

definition targetCourts :: "'a Court_scheme list \<Rightarrow> 'a Court_scheme list" where
  "targetCourts currentCourts = filter (\<lambda>c. status c = Allocating) currentCourts"

definition courtsToFillCount :: "Player list \<Rightarrow> 'a Court_scheme list \<Rightarrow> nat" where
  "courtsToFillCount allPlayers currentCourts =
     min (length (targetCourts currentCourts))
         (length (availablePlayers allPlayers currentCourts) div 4)"

definition playersToTakeCount :: "Player list \<Rightarrow> 'a Court_scheme list \<Rightarrow> nat" where
  "playersToTakeCount allPlayers currentCourts = courtsToFillCount allPlayers currentCourts * 4"

definition selectedStats ::
  "(nat \<Rightarrow> real) \<Rightarrow> Player list \<Rightarrow> 'a Court_scheme list \<Rightarrow> RoundRecord list \<Rightarrow> PlayerStat list"
where
  "selectedStats rnd allPlayers currentCourts history =
     take (playersToTakeCount allPlayers currentCourts)
          (sortedStats rnd allPlayers currentCourts history)"

subsection \<open>Step 7: snake distribution\<close>

definition cmp_level :: "Player \<Rightarrow> Player \<Rightarrow> real" where
  "cmp_level a b = real_of_int (level b - level a)"

definition selectedPlayers ::
  "(nat \<Rightarrow> real) \<Rightarrow> Player list \<Rightarrow> 'a Court_scheme list \<Rightarrow> RoundRecord list \<Rightarrow> Player list"
where
  "selectedPlayers rnd allPlayers currentCourts history =
     sort_cmp cmp_level (map player (selectedStats rnd allPlayers currentCourts history))"

text \<open>
  \<^verbatim>\<open>assignmentMap\<close> is a \<^verbatim>\<open>Map<string, Player[]>\<close>. Its keys are modelled as
  \<open>string option\<close>: \<open>Some s\<close> is the string \<open>s\<close>, and \<open>None\<close> is \<^verbatim>\<open>undefined\<close>,
  which is what \<^verbatim>\<open>courtsToFillIds[courtIdx]\<close> yields for an index out of range.
\<close>

type_synonym assignment = "string option \<Rightarrow> Player list option"

definition initialAssignment :: "'a Court_scheme list \<Rightarrow> assignment" where
  "initialAssignment tcs = fold (\<lambda>c m. m(Some (c_id c) \<mapsto> [])) tcs Map.empty"

definition js_index :: "'b list \<Rightarrow> int \<Rightarrow> 'b option" where
  "js_index xs i = (if 0 \<le> i \<and> i < int (length xs) then Some (xs ! nat i) else None)"

record snake_state =
  assignmentMap :: assignment
  courtIdx :: int
  forward :: bool

definition snake_step :: "string list \<Rightarrow> Player \<Rightarrow> snake_state \<Rightarrow> snake_state" where
  "snake_step courtsToFillIds p s =
     (let cId = js_index courtsToFillIds (courtIdx s);
          currentList = (case assignmentMap s cId of Some l \<Rightarrow> l | None \<Rightarrow> []) @ [p];
          m = (assignmentMap s)(cId \<mapsto> currentList)
      in if forward s
         then (if courtIdx s + 1 \<ge> int (length courtsToFillIds)
               then \<lparr>assignmentMap = m, courtIdx = int (length courtsToFillIds) - 1,
                     forward = False\<rparr>
               else \<lparr>assignmentMap = m, courtIdx = courtIdx s + 1, forward = True\<rparr>)
         else (if courtIdx s - 1 < 0
               then \<lparr>assignmentMap = m, courtIdx = 0, forward = True\<rparr>
               else \<lparr>assignmentMap = m, courtIdx = courtIdx s - 1, forward = False\<rparr>))"

definition distribute :: "'a Court_scheme list \<Rightarrow> nat \<Rightarrow> Player list \<Rightarrow> assignment" where
  "distribute tcs fillCount sel =
     (if fillCount > 0
      then assignmentMap
             (fold (snake_step (map c_id (take fillCount tcs))) sel
                   \<lparr>assignmentMap = initialAssignment tcs, courtIdx = 0, forward = True\<rparr>)
      else initialAssignment tcs)"

definition assignments ::
  "(nat \<Rightarrow> real) \<Rightarrow> Player list \<Rightarrow> 'a Court_scheme list \<Rightarrow> RoundRecord list \<Rightarrow> assignment"
where
  "assignments rnd allPlayers currentCourts history =
     distribute (targetCourts currentCourts) (courtsToFillCount allPlayers currentCourts)
                (selectedPlayers rnd allPlayers currentCourts history)"

subsection \<open>Step 8: team balance and merge\<close>

text \<open>
  \<open>balancedIds\<close> is the branch for a court that received exactly 4 players, so the
  four reads of \<open>sorted\<close> are in range where \<open>mergeCourt\<close> calls it. \<open>fallbackIds\<close>
  is the other branch: player \<open>i\<close> goes to slot \<open>i\<close> while \<open>i < 4\<close>.
\<close>

definition balancedIds :: "Player list \<Rightarrow> string option list" where
  "balancedIds allocatedPlayers =
     (let sorted = sort_cmp cmp_level allocatedPlayers;
          best = sorted ! 0; second = sorted ! 1; third = sorted ! 2; worst = sorted ! 3
      in [Some (p_id best), Some (p_id worst), Some (p_id second), Some (p_id third)])"

definition fallbackIds :: "Player list \<Rightarrow> string option list" where
  "fallbackIds allocatedPlayers =
     fold (\<lambda>(i, p) ids. if i < 4 then ids[i := Some (p_id p)] else ids)
          (enumerate 0 allocatedPlayers) [None, None, None, None]"

definition mergeCourt :: "assignment \<Rightarrow> 'a Court_scheme \<Rightarrow> 'a Court_scheme" where
  "mergeCourt am c =
     (if status c = Playing then c
      else if am (Some (c_id c)) \<noteq> None
      then (let allocatedPlayers = (case am (Some (c_id c)) of Some l \<Rightarrow> l | None \<Rightarrow> []);
                allocatedIds = (if length allocatedPlayers = 4
                                then balancedIds allocatedPlayers
                                else fallbackIds allocatedPlayers)
            in c\<lparr>status := Allocating, playerIds := allocatedIds\<rparr>)
      else c\<lparr>playerIds := [None, None, None, None]\<rparr>)"

definition smartAllocation ::
  "(nat \<Rightarrow> real) \<Rightarrow> Player list \<Rightarrow> 'a Court_scheme list \<Rightarrow> RoundRecord list
     \<Rightarrow> 'a Court_scheme list"
where
  "smartAllocation rnd allPlayers currentCourts history =
     map (mergeCourt (assignments rnd allPlayers currentCourts history)) currentCourts"

section \<open>recordMatchStart (hooks/useMatchHistory.ts)\<close>

definition GROUP_WINDOW_MS :: int where
  "GROUP_WINDOW_MS = 15 * 60 * 1000"

text \<open>\<^verbatim>\<open>names.join(',')\<close>\<close>

fun join_comma :: "string list \<Rightarrow> string" where
  "join_comma [] = []"
| "join_comma [x] = x"
| "join_comma (x # y # ys) = x @ '','' @ join_comma (y # ys)"

definition isDuplicate :: "RoundRecord \<Rightarrow> MatchRecord \<Rightarrow> string list \<Rightarrow> bool" where
  "isDuplicate lastRound newMatch names =
     list_ex (\<lambda>m. courtName m = courtName newMatch \<and>
                    join_comma (playerNames m) = join_comma names)
             (matches lastRound)"

text \<open>
  The function passed to \<^verbatim>\<open>setRounds\<close>; \<open>timestamp\<close>, \<open>names\<close> and \<open>newMatch\<close>
  are the variables it closes over, \<open>newId\<close> is the value of \<^verbatim>\<open>generateId()\<close>.
  \<^verbatim>\<open>newRounds[newRounds.length - 1]\<close> is \<^verbatim>\<open>undefined\<close> for an empty list, which
  makes the guard \<^verbatim>\<open>lastRound && ...\<close> fail.
\<close>

definition roundsUpdater ::
  "int \<Rightarrow> string list \<Rightarrow> MatchRecord \<Rightarrow> string \<Rightarrow> RoundRecord list \<Rightarrow> RoundRecord list"
where
  "roundsUpdater timestamp names newMatch newId prev =
     (let newRounds = prev;
          lastRound = (if newRounds = [] then None else Some (last newRounds));
          appended =
            newRounds @
              [\<lparr>r_id = newId, roundNumber = int (length newRounds) + 1,
                r_timestamp = timestamp, matches = [newMatch]\<rparr>]
      in case lastRound of
           None \<Rightarrow> appended
         | Some lr \<Rightarrow>
             if timestamp - r_timestamp lr < GROUP_WINDOW_MS
             then (if \<not> isDuplicate lr newMatch names
                   then newRounds[length newRounds - 1 :=
                                    lr\<lparr>matches := matches lr @ [newMatch]\<rparr>]
                   else newRounds)
             else appended)"

definition playerNameOf :: "Player list \<Rightarrow> string \<Rightarrow> string" where
  "playerNameOf players pid =
     (case find (\<lambda>p. p_id p = pid) players of
        None \<Rightarrow> ''Unknown''
      | Some p \<Rightarrow> if p_name p \<noteq> [] then p_name p else ''Unknown'')"

definition newMatchFor :: "Player list \<Rightarrow> 'a Court_scheme \<Rightarrow> int \<Rightarrow> MatchRecord" where
  "newMatchFor players court timestamp =
     \<lparr>courtName = c_name court,
      playerNames = map (playerNameOf players)
                        (map the (filter (\<lambda>pid. pid \<noteq> None) (playerIds court))),
      m_timestamp = timestamp,
      result = None\<rparr>"

text \<open>
  \<open>timestamp\<close> is the value of \<^verbatim>\<open>Date.now()\<close>. When the court is not found the
  function returns before \<^verbatim>\<open>setRounds\<close>, and the rounds stay as they are.
\<close>

definition recordMatchStart ::
  "Player list \<Rightarrow> 'a Court_scheme list \<Rightarrow> string \<Rightarrow> int \<Rightarrow> string \<Rightarrow> RoundRecord list
     \<Rightarrow> RoundRecord list"
where
  "recordMatchStart players courts courtId timestamp newId rounds =
     (case find (\<lambda>c. c_id c = courtId) courts of
        None \<Rightarrow> rounds
      | Some court \<Rightarrow>
          (let newMatch = newMatchFor players court timestamp
           in roundsUpdater timestamp (playerNames newMatch) newMatch newId rounds))"

section \<open>Notions used to state the properties\<close>

text \<open>The ids in the occupied (non-null) slots of a court, in slot order.\<close>

definition occupiedIds :: "'a Court_scheme \<Rightarrow> string list" where
  "occupiedIds c = map the (filter (\<lambda>pid. pid \<noteq> None) (playerIds c))"

text \<open>
  The forward-then-backward traversal of the court indices \<open>0, ..., k - 1\<close>:
  \<open>0, 1, ..., k - 1, k - 1, ..., 1, 0, 0, 1, ...\<close>.
\<close>

definition snake_index :: "nat \<Rightarrow> nat \<Rightarrow> nat" where
  "snake_index k i = (let r = i mod (2 * k) in if r < k then r else 2 * k - 1 - r)"

text \<open>A match counts for a name when its list of player names contains the name.\<close>

definition matchesWith :: "string \<Rightarrow> RoundRecord list \<Rightarrow> nat" where
  "matchesWith nm history =
     sum_list (map (\<lambda>r. length (filter (\<lambda>m. nm \<in> set (playerNames m)) (matches r))) history)"

definition roundHasPlayer :: "string \<Rightarrow> RoundRecord \<Rightarrow> bool" where
  "roundHasPlayer nm r = list_ex (\<lambda>m. nm \<in> set (playerNames m)) (matches r)"

text \<open>
  The priority order of the selection queue: fewer matches played first, then the longer
  rest, then the larger random draw.
\<close>

definition prio_le :: "PlayerStat \<Rightarrow> PlayerStat \<Rightarrow> bool" where
  "prio_le a b =
     (playedCount a < playedCount b \<or>
      (playedCount a = playedCount b \<and>
        (restRounds a > restRounds b \<or>
         (restRounds a = restRounds b \<and> random_v a \<ge> random_v b))))"

text \<open>
  The scan of the history started at round index \<open>n\<close> with given counters; the
  source's scan is the one started at \<open>0\<close> with \<open>(0, -1)\<close>.
\<close>

definition scan_from :: "string \<Rightarrow> nat \<Rightarrow> RoundRecord list \<Rightarrow> int \<times> int \<Rightarrow> int \<times> int" where
  "scan_from nm n rs acc =
     fold (\<lambda>(rIdx, round) acc. fold (scan_match nm (int rIdx)) (matches round) acc)
          (enumerate n rs) acc"

text \<open>
  The players of the level-sorted selection \<open>sel\<close> whose position \<open>i\<close> is sent by
  the snake traversal to a court of id \<open>key\<close>, in the order of \<open>sel\<close>.
\<close>

definition placedAt :: "string list \<Rightarrow> Player list \<Rightarrow> string option \<Rightarrow> Player list" where
  "placedAt ids sel key =
     map (nth sel)
         (filter (\<lambda>i. Some (ids ! snake_index (length ids) i) = key) [0..<length sel])"

text \<open>\<^verbatim>\<open>courtsToFillIds\<close>: the ids of the first \<^verbatim>\<open>courtsToFillCount\<close> target courts.\<close>

definition fillIds :: "Player list \<Rightarrow> 'a Court_scheme list \<Rightarrow> string list" where
  "fillIds allPlayers currentCourts =
     map c_id (take (courtsToFillCount allPlayers currentCourts) (targetCourts currentCourts))"

text \<open>The number of allocating courts with exactly four occupied slots.\<close>

definition fullCourts :: "'a Court_scheme list \<Rightarrow> nat" where
  "fullCourts cs =
     length (filter (\<lambda>c. status c = Allocating \<and> length (occupiedIds c) = 4) cs)"

text \<open>The ids in all occupied slots of a list of courts, and the playing courts.\<close>

definition seatedIds :: "'a Court_scheme list \<Rightarrow> string list" where
  "seatedIds cs = concat (map occupiedIds cs)"

definition playingCourts :: "'a Court_scheme list \<Rightarrow> 'a Court_scheme list" where
  "playingCourts cs = filter (\<lambda>c. status c = Playing) cs"

text \<open>
  The outcomes of recording a match: whether the timestamp falls in the grouping window
  of the last round; the rounds with the match appended to the last round; the rounds
  with a new round appended.
\<close>

definition withinWindow :: "int \<Rightarrow> RoundRecord list \<Rightarrow> bool" where
  "withinWindow timestamp rounds =
     (rounds \<noteq> [] \<and> timestamp - r_timestamp (last rounds) < GROUP_WINDOW_MS)"

definition joinLastRound :: "RoundRecord list \<Rightarrow> MatchRecord \<Rightarrow> RoundRecord list" where
  "joinLastRound rounds newMatch =
     butlast rounds @ [(last rounds)\<lparr>matches := matches (last rounds) @ [newMatch]\<rparr>]"

definition startNewRound ::
  "RoundRecord list \<Rightarrow> MatchRecord \<Rightarrow> string \<Rightarrow> int \<Rightarrow> RoundRecord list"
where
  "startNewRound rounds newMatch newId timestamp =
     rounds @ [\<lparr>r_id = newId, roundNumber = int (length rounds) + 1,
                r_timestamp = timestamp, matches = [newMatch]\<rparr>]"

section \<open>Sample inputs (the helpers of utils.test.ts)\<close>

definition createPlayer :: "string \<Rightarrow> string \<Rightarrow> int \<Rightarrow> bool \<Rightarrow> Player" where
  "createPlayer i n l act =
     \<lparr>p_id = i, p_name = n, isActive = act, gender = Male, level = l, avatar = None\<rparr>"

definition createCourt :: "string \<Rightarrow> string \<Rightarrow> CourtStatus \<Rightarrow> Court" where
  "createCourt i n st =
     \<lparr>c_id = i, c_name = n, c_type = HallA, status = st,
      playerIds = [None, None, None, None]\<rparr>"

text \<open>A fixed sequence of random draws: every draw is \<open>0\<close>.\<close>

definition rnd0 :: "nat \<Rightarrow> real" where
  "rnd0 i = 0"

definition roster4 :: "Player list" where
  "roster4 =
     [createPlayer ''p1'' ''Best'' 10 True, createPlayer ''p2'' ''Second'' 8 True,
      createPlayer ''p3'' ''Third'' 6 True, createPlayer ''p4'' ''Worst'' 4 True]"

definition roster5 :: "Player list" where
  "roster5 =
     [createPlayer ''p1'' ''P1'' 5 True, createPlayer ''p2'' ''P2'' 6 True,
      createPlayer ''p3'' ''P3'' 7 True, createPlayer ''p4'' ''P4'' 8 True,
      createPlayer ''p5'' ''P5'' 10 True]"

definition roster8 :: "Player list" where
  "roster8 =
     [createPlayer ''p1'' ''P1'' 5 True, createPlayer ''p2'' ''P2'' 6 True,
      createPlayer ''p3'' ''P3'' 7 True, createPlayer ''p4'' ''P4'' 8 True,
      createPlayer ''p5'' ''P5'' 10 True, createPlayer ''p6'' ''P6'' 8 True,
      createPlayer ''p7'' ''P7'' 6 True, createPlayer ''p8'' ''P8'' 4 True]"

definition court_one :: "Court list" where
  "court_one = [createCourt ''c1'' ''Court 1'' Allocating]"

definition courts_two :: "Court list" where
  "courts_two =
     [createCourt ''c1'' ''Court 1'' Allocating, createCourt ''c2'' ''Court 2'' Allocating]"

definition courts_mixed :: "Court list" where
  "courts_mixed =
     [(createCourt ''c1'' ''Court 1'' Playing)
        \<lparr>playerIds := [Some ''p1'', Some ''p2'', Some ''p3'', Some ''p4'']\<rparr>,
      createCourt ''c2'' ''Court 2'' Allocating]"

definition courts_full :: "Court list" where
  "courts_full =
     [(createCourt ''c1'' ''Court 1'' Allocating)
        \<lparr>playerIds := [Some ''p1'', Some ''p2'', Some ''p3'', Some ''p4'']\<rparr>,
      (createCourt ''c2'' ''Court 2'' Allocating)
        \<lparr>playerIds := [Some ''p5'', Some ''p6'', Some ''p7'', Some ''p8'']\<rparr>]"

text \<open>
  Nine players, \<open>p5\<close> inactive: with \<open>p1\<close>, ..., \<open>p4\<close> on a playing court the
  eligible players are \<open>p6\<close>, ..., \<open>p9\<close>.
\<close>

definition roster9 :: "Player list" where
  "roster9 =
     [createPlayer ''p1'' ''P1'' 5 True, createPlayer ''p2'' ''P2'' 6 True,
      createPlayer ''p3'' ''P3'' 7 True, createPlayer ''p4'' ''P4'' 8 True,
      createPlayer ''p5'' ''P5'' 10 False, createPlayer ''p6'' ''P6'' 8 True,
      createPlayer ''p7'' ''P7'' 6 True, createPlayer ''p8'' ''P8'' 4 True,
      createPlayer ''p9'' ''P9'' 9 True]"

text \<open>Twelve players with the levels 1 to 12, and three open courts.\<close>

definition roster12 :: "Player list" where
  "roster12 =
     [createPlayer ''q1'' ''Q1'' 7 True, createPlayer ''q2'' ''Q2'' 12 True,
      createPlayer ''q3'' ''Q3'' 3 True, createPlayer ''q4'' ''Q4'' 9 True,
      createPlayer ''q5'' ''Q5'' 1 True, createPlayer ''q6'' ''Q6'' 10 True,
      createPlayer ''q7'' ''Q7'' 5 True, createPlayer ''q8'' ''Q8'' 11 True,
      createPlayer ''q9'' ''Q9'' 2 True, createPlayer ''q10'' ''Q10'' 8 True,
      createPlayer ''q11'' ''Q11'' 4 True, createPlayer ''q12'' ''Q12'' 6 True]"

definition courts_three :: "Court list" where
  "courts_three =
     [createCourt ''c1'' ''Court 1'' Allocating, createCourt ''c2'' ''Court 2'' Allocating,
      createCourt ''c3'' ''Court 3'' Allocating]"

definition round1 :: RoundRecord where
  "round1 =
     \<lparr>r_id = ''r1'', roundNumber = 1, r_timestamp = 1000,
      matches = [\<lparr>courtName = ''Court 1'', playerNames = [''P1'', ''P2'', ''P3'', ''P4''],
                  m_timestamp = 1000, result = None\<rparr>]\<rparr>"

definition round2 :: RoundRecord where
  "round2 =
     \<lparr>r_id = ''r2'', roundNumber = 2, r_timestamp = 2000000,
      matches = [\<lparr>courtName = ''Court 1'', playerNames = [''P1'', ''P6'', ''P7'', ''P8''],
                  m_timestamp = 2000000, result = None\<rparr>]\<rparr>"

text \<open>
  Three rounds, the last one without a match: \<open>P1\<close> played twice (last in round
  index 1), \<open>P2\<close> once (round index 0), \<open>P5\<close> never.
\<close>

definition history3 :: "RoundRecord list" where
  "history3 =
     [round1, round2,
      \<lparr>r_id = ''r3'', roundNumber = 3, r_timestamp = 4000000, matches = []\<rparr>]"

section \<open>Frame properties of the merge step\<close>

lemma mergeCourt_playing: "status c = Playing \<Longrightarrow> mergeCourt am c = c"
  by (simp add: mergeCourt_def)

lemma mergeCourt_frame:
  "c_id (mergeCourt am c) = c_id c \<and> c_name (mergeCourt am c) = c_name c \<and>
   c_type (mergeCourt am c) = c_type c \<and> Court.more (mergeCourt am c) = Court.more c"
  by (simp add: mergeCourt_def Let_def)

lemma mergeCourt_status: "status (mergeCourt am c) = status c"
  by (cases "status c") (simp_all add: mergeCourt_def Let_def)

section \<open>Facts about the comparator sort and the statistics scan\<close>

lemma mset_insort_cmp: "mset (insort_cmp cmp x ys) = add_mset x (mset ys)"
  by (induction ys) simp_all

lemma mset_sort_cmp: "mset (sort_cmp cmp xs) = mset xs"
  by (induction xs) (simp_all add: sort_cmp_def mset_insort_cmp)

lemma set_sort_cmp: "set (sort_cmp cmp xs) = set xs"
  using mset_sort_cmp [of cmp xs] by (metis set_mset_mset)

lemma length_sort_cmp: "length (sort_cmp cmp xs) = length xs"
  using mset_sort_cmp [of cmp xs] by (metis size_mset)

lemma set_insort_cmp: "set (insort_cmp cmp x ys) = insert x (set ys)"
  using mset_insort_cmp [of cmp x ys] by (metis set_mset_mset set_mset_add_mset_insert)

lemma insort_cmp_level: "insort_cmp cmp_level x ys = insort_key (\<lambda>p. - level p) x ys"
  by (induction ys) (simp_all add: cmp_level_def)

lemma sort_cmp_level: "sort_cmp cmp_level xs = sort_key (\<lambda>p. - level p) xs"
  by (induction xs) (simp_all add: sort_cmp_def insort_cmp_level)

lemma cmp_priority_le: "cmp_priority a b \<le> 0 \<longleftrightarrow> prio_le a b"
  by (auto simp: cmp_priority_def prio_le_def)

lemma prio_le_total: "\<not> prio_le a b \<Longrightarrow> prio_le b a"
  by (auto simp: prio_le_def)

lemma prio_le_trans: "prio_le a b \<Longrightarrow> prio_le b c \<Longrightarrow> prio_le a c"
  by (auto simp: prio_le_def)

lemma sorted_insort_priority:
  "sorted_wrt prio_le ys \<Longrightarrow> sorted_wrt prio_le (insort_cmp cmp_priority x ys)"
proof (induction ys)
  case Nil
  then show ?case by simp
next
  case (Cons y ys)
  show ?case
  proof (cases "cmp_priority x y \<le> 0")
    case True
    then have xy: "prio_le x y" by (simp add: cmp_priority_le)
    have "\<forall>z\<in>set ys. prio_le x z"
      using Cons.prems xy by (auto intro: prio_le_trans)
    with True xy Cons.prems show ?thesis by simp
  next
    case False
    then have "prio_le y x" by (simp add: cmp_priority_le prio_le_total)
    with False Cons show ?thesis by (simp add: set_insort_cmp)
  qed
qed

lemma sorted_sort_priority: "sorted_wrt prio_le (sort_cmp cmp_priority xs)"
proof (induction xs)
  case Nil
  show ?case by (simp add: sort_cmp_def)
next
  case (Cons x xs)
  then show ?case
    using sorted_insort_priority [of "sort_cmp cmp_priority xs" x]
    by (simp add: sort_cmp_def)
qed

lemma fold_scan_match:
  "fold (scan_match nm idx) ms (c, l) =
     (c + int (length (filter (\<lambda>m. nm \<in> set (playerNames m)) ms)),
      if list_ex (\<lambda>m. nm \<in> set (playerNames m)) ms then idx else l)"
  by (induction ms arbitrary: c l) (simp_all add: scan_match_def)

lemma scan_from_snoc:
  "scan_from nm n (rs @ [r]) acc =
     fold (scan_match nm (int (n + length rs))) (matches r) (scan_from nm n rs acc)"
  by (simp add: scan_from_def enumerate_append_eq)

lemma scan_from_count:
  "fst (scan_from nm n rs (c, l)) = c + int (matchesWith nm rs)"
proof (induction rs rule: rev_induct)
  case Nil
  show ?case by (simp add: scan_from_def matchesWith_def)
next
  case (snoc r rs)
  obtain c' l' where s: "scan_from nm n rs (c, l) = (c', l')" by (cases "scan_from nm n rs (c, l)")
  with snoc have "c' = c + int (matchesWith nm rs)" by simp
  then show ?case
    by (simp add: scan_from_snoc s fold_scan_match matchesWith_def)
qed

lemma scan_from_last:
  "snd (scan_from nm n rs (c, l)) = l \<and> (\<forall>j<length rs. \<not> roundHasPlayer nm (rs ! j)) \<or>
   (\<exists>j<length rs. snd (scan_from nm n rs (c, l)) = int (n + j) \<and> roundHasPlayer nm (rs ! j) \<and>
        (\<forall>j'. j < j' \<and> j' < length rs \<longrightarrow> \<not> roundHasPlayer nm (rs ! j')))"
proof (induction rs rule: rev_induct)
  case Nil
  show ?case by (simp add: scan_from_def)
next
  case (snoc r rs)
  obtain c' l' where s: "scan_from nm n rs (c, l) = (c', l')" by (cases "scan_from nm n rs (c, l)")
  show ?case
  proof (cases "roundHasPlayer nm r")
    case True
    then have "snd (scan_from nm n (rs @ [r]) (c, l)) = int (n + length rs)"
      by (simp add: scan_from_snoc s fold_scan_match roundHasPlayer_def)
    with True show ?thesis
      by (intro disjI2 exI [of _ "length rs"]) auto
  next
    case False
    then have eq: "snd (scan_from nm n (rs @ [r]) (c, l)) = snd (scan_from nm n rs (c, l))"
      by (simp add: scan_from_snoc s fold_scan_match roundHasPlayer_def)
    from snoc show ?thesis
    proof
      assume a: "snd (scan_from nm n rs (c, l)) = l \<and> (\<forall>j<length rs. \<not> roundHasPlayer nm (rs ! j))"
      have "\<forall>j<length (rs @ [r]). \<not> roundHasPlayer nm ((rs @ [r]) ! j)"
        using a False by (auto simp: nth_append less_Suc_eq)
      with a eq show ?thesis by simp
    next
      assume "\<exists>j<length rs. snd (scan_from nm n rs (c, l)) = int (n + j) \<and> roundHasPlayer nm (rs ! j) \<and>
        (\<forall>j'. j < j' \<and> j' < length rs \<longrightarrow> \<not> roundHasPlayer nm (rs ! j'))"
      then obtain j where j: "j < length rs" "snd (scan_from nm n rs (c, l)) = int (n + j)"
        "roundHasPlayer nm (rs ! j)"
        "\<forall>j'. j < j' \<and> j' < length rs \<longrightarrow> \<not> roundHasPlayer nm (rs ! j')" by blast
      have "\<forall>j'. j < j' \<and> j' < length (rs @ [r]) \<longrightarrow> \<not> roundHasPlayer nm ((rs @ [r]) ! j')"
        using j(4) False by (auto simp: nth_append less_Suc_eq)
      with j eq show ?thesis
        by (intro disjI2 exI [of _ j]) (simp add: nth_append)
    qed
  qed
qed

lemma matchesWith_zero_iff:
  "matchesWith nm rs = 0 \<longleftrightarrow> (\<forall>j<length rs. \<not> roundHasPlayer nm (rs ! j))"
  by (auto simp: matchesWith_def roundHasPlayer_def list_ex_iff filter_empty_conv
      all_set_conv_all_nth)

section \<open>The snake loop\<close>

lemma snake_index_less: "0 < k \<Longrightarrow> snake_index k i < k"
  by (auto simp: snake_index_def Let_def)

lemma snake_index_Suc:
  assumes "0 < k"
  shows "snake_index k (Suc n) =
           (if n mod (2 * k) < k
            then (if Suc (snake_index k n) \<ge> k then k - 1 else Suc (snake_index k n))
            else (if snake_index k n = 0 then 0 else snake_index k n - 1))"
    and "(Suc n mod (2 * k) < k) =
           (if n mod (2 * k) < k then \<not> (Suc (snake_index k n) \<ge> k) else snake_index k n = 0)"
proof -
  define r where "r = n mod (2 * k)"
  have r: "r < 2 * k" using assms by (simp add: r_def)
  have suc: "Suc n mod (2 * k) = (if Suc r = 2 * k then 0 else Suc r)"
    by (simp add: r_def mod_Suc)
  show "snake_index k (Suc n) =
           (if n mod (2 * k) < k
            then (if Suc (snake_index k n) \<ge> k then k - 1 else Suc (snake_index k n))
            else (if snake_index k n = 0 then 0 else snake_index k n - 1))"
    unfolding snake_index_def Let_def suc r_def [symmetric] using r assms by auto
  show "(Suc n mod (2 * k) < k) =
           (if n mod (2 * k) < k then \<not> (Suc (snake_index k n) \<ge> k) else snake_index k n = 0)"
    unfolding snake_index_def Let_def suc r_def [symmetric] using r assms by auto
qed

lemma snake_step_at:
  assumes "0 < length ids"
  shows "snake_step ids p \<lparr>assignmentMap = m, courtIdx = int (snake_index (length ids) n),
                           forward = (n mod (2 * length ids) < length ids)\<rparr> =
         \<lparr>assignmentMap =
            m(Some (ids ! snake_index (length ids) n) \<mapsto>
                (case m (Some (ids ! snake_index (length ids) n)) of Some l \<Rightarrow> l | None \<Rightarrow> []) @ [p]),
          courtIdx = int (snake_index (length ids) (Suc n)),
          forward = (Suc n mod (2 * length ids) < length ids)\<rparr>"
proof -
  have lt: "snake_index (length ids) n < length ids"
    using assms by (rule snake_index_less)
  then have idx: "js_index ids (int (snake_index (length ids) n)) = Some (ids ! snake_index (length ids) n)"
    by (simp add: js_index_def)
  show ?thesis
    using lt assms
    by (auto simp add: snake_step_def idx Let_def snake_index_Suc [OF assms])
qed

lemma placedAt_snoc:
  "placedAt ids (ps @ [p]) key =
     placedAt ids ps key @
       (if Some (ids ! snake_index (length ids) (length ps)) = key then [p] else [])"
proof -
  have "map (nth (ps @ [p])) (filter (\<lambda>i. Some (ids ! snake_index (length ids) i) = key) [0..<length ps])
      = map (nth ps) (filter (\<lambda>i. Some (ids ! snake_index (length ids) i) = key) [0..<length ps])"
    by (rule map_cong) (auto simp: nth_append)
  then show ?thesis
    by (simp add: placedAt_def)
qed

lemma fold_snake_step:
  assumes "0 < length ids" and "\<forall>i<length ids. m0 (Some (ids ! i)) \<noteq> None"
  shows "fold (snake_step ids) ps \<lparr>assignmentMap = m0, courtIdx = 0, forward = True\<rparr> =
         \<lparr>assignmentMap = (\<lambda>key. map_option (\<lambda>l. l @ placedAt ids ps key) (m0 key)),
          courtIdx = int (snake_index (length ids) (length ps)),
          forward = (length ps mod (2 * length ids) < length ids)\<rparr>"
proof (induction ps rule: rev_induct)
  case Nil
  have "(\<lambda>key. map_option (\<lambda>l. l @ placedAt ids [] key) (m0 key)) = m0"
    by (rule ext) (simp add: placedAt_def option.map_ident)
  then show ?case using assms(1) by (simp add: snake_index_def)
next
  case (snoc p ps)
  let ?c = "Some (ids ! snake_index (length ids) (length ps))"
  have some: "m0 ?c \<noteq> None"
    using assms(2) snake_index_less [OF assms(1)] by blast
  have "(\<lambda>key. map_option (\<lambda>l. l @ placedAt ids ps key) (m0 key))
          (?c \<mapsto> (case map_option (\<lambda>l. l @ placedAt ids ps ?c) (m0 ?c) of Some l \<Rightarrow> l | None \<Rightarrow> []) @ [p])
        = (\<lambda>key. map_option (\<lambda>l. l @ placedAt ids (ps @ [p]) key) (m0 key))"
    using some by (auto simp: fun_eq_iff placedAt_snoc split: option.splits)
  then show ?case
    by (simp add: snoc.IH snake_step_at [OF assms(1)])
qed

lemma initialAssignment_apply:
  "initialAssignment tcs key = (if key \<in> (\<lambda>c. Some (c_id c)) ` set tcs then Some [] else None)"
proof -
  have aux: "fold (\<lambda>c m. m(Some (c_id c) \<mapsto> [])) tcs m key
          = (if key \<in> (\<lambda>c. Some (c_id c)) ` set tcs then Some [] else m key)" for m
    by (induction tcs arbitrary: m) auto
  show ?thesis unfolding initialAssignment_def by (simp add: aux)
qed

lemma distribute_apply:
  assumes "k \<le> length tcs"
  shows "distribute tcs k sel key =
     (if key \<in> (\<lambda>c. Some (c_id c)) ` set tcs
      then Some (if 0 < k then placedAt (map c_id (take k tcs)) sel key else [])
      else None)"
proof (cases "0 < k")
  case False
  then show ?thesis by (simp add: distribute_def initialAssignment_apply)
next
  case True
  let ?ids = "map c_id (take k tcs)"
  have len: "0 < length ?ids" using True assms by simp
  have dom: "\<forall>i<length ?ids. initialAssignment tcs (Some (?ids ! i)) \<noteq> None"
  proof (intro allI impI)
    fix i assume i: "i < length ?ids"
    then have "take k tcs ! i \<in> set tcs"
      by (metis in_set_takeD length_map nth_mem)
    then show "initialAssignment tcs (Some (?ids ! i)) \<noteq> None"
      using i by (simp add: initialAssignment_apply)
  qed
  show ?thesis
    using True
    by (simp add: distribute_def initialAssignment_apply
        fold_snake_step [of ?ids "initialAssignment tcs", OF len dom])
qed

section \<open>Selection and the assignment map\<close>

lemma length_playerStats:
  "length (playerStats rnd allPlayers currentCourts history)
     = length (availablePlayers allPlayers currentCourts)"
  by (simp add: playerStats_def)

lemma nth_playerStats:
  "i < length (availablePlayers allPlayers currentCourts) \<Longrightarrow>
   playerStats rnd allPlayers currentCourts history ! i
     = playerStat history (rnd i) (availablePlayers allPlayers currentCourts ! i)"
  by (simp add: playerStats_def nth_enumerate_eq)

lemma player_playerStat: "player (playerStat history r p) = p"
  by (simp add: playerStat_def split: prod.splits)

lemma map_player_playerStats:
  "map player (playerStats rnd allPlayers currentCourts history)
     = availablePlayers allPlayers currentCourts"
  by (rule nth_equalityI) (simp_all add: length_playerStats nth_playerStats player_playerStat)

lemma length_sortedStats:
  "length (sortedStats rnd allPlayers currentCourts history)
     = length (availablePlayers allPlayers currentCourts)"
  by (simp add: sortedStats_def length_sort_cmp length_playerStats)

lemma playersToTake_le:
  "playersToTakeCount allPlayers currentCourts \<le> length (availablePlayers allPlayers currentCourts)"
  by (simp add: playersToTakeCount_def courtsToFillCount_def)

lemma length_selectedPlayers:
  "length (selectedPlayers rnd allPlayers currentCourts history)
     = 4 * courtsToFillCount allPlayers currentCourts"
  using playersToTake_le [of allPlayers currentCourts]
  by (simp add: selectedPlayers_def length_sort_cmp selectedStats_def length_sortedStats
      playersToTakeCount_def)

lemma mset_selectedPlayers:
  "mset (selectedPlayers rnd allPlayers currentCourts history)
     = image_mset player (mset (selectedStats rnd allPlayers currentCourts history))"
  by (simp add: selectedPlayers_def mset_sort_cmp)

lemma selectedPlayers_subseteq:
  "mset (selectedPlayers rnd allPlayers currentCourts history)
     \<subseteq># mset (availablePlayers allPlayers currentCourts)"
proof -
  have "mset (selectedStats rnd allPlayers currentCourts history)
          \<subseteq># mset (sortedStats rnd allPlayers currentCourts history)"
    unfolding selectedStats_def
    by (metis append_take_drop_id mset_append mset_subset_eq_add_left)
  then have "image_mset player (mset (selectedStats rnd allPlayers currentCourts history))
          \<subseteq># image_mset player (mset (playerStats rnd allPlayers currentCourts history))"
    by (simp add: sortedStats_def mset_sort_cmp image_mset_subseteq_mono)
  then show ?thesis
    using map_player_playerStats [of rnd allPlayers currentCourts history]
    by (metis mset_selectedPlayers mset_map)
qed

lemma courtsToFill_le:
  "courtsToFillCount allPlayers currentCourts \<le> length (targetCourts currentCourts)"
  by (simp add: courtsToFillCount_def)

lemma placedAt_Nil: "placedAt ids [] key = []"
  by (simp add: placedAt_def)

lemma assignments_apply:
  "assignments rnd allPlayers currentCourts history key =
     (if key \<in> (\<lambda>c. Some (c_id c)) ` set (targetCourts currentCourts)
      then Some (placedAt (map c_id (take (courtsToFillCount allPlayers currentCourts)
                                          (targetCourts currentCourts)))
                          (selectedPlayers rnd allPlayers currentCourts history) key)
      else None)"
proof (cases "0 < courtsToFillCount allPlayers currentCourts")
  case True
  then show ?thesis
    by (simp add: assignments_def distribute_apply [OF courtsToFill_le])
next
  case False
  then have "selectedPlayers rnd allPlayers currentCourts history = []"
    using length_selectedPlayers [of rnd allPlayers currentCourts history] by simp
  with False show ?thesis
    by (simp add: assignments_def distribute_def initialAssignment_apply placedAt_Nil)
qed

lemma filter_eq_upt: "a \<le> c \<Longrightarrow> c < b \<Longrightarrow> filter (\<lambda>i. i = c) [a..<b] = [c]"
proof (induction b)
  case 0
  then show ?case by simp
next
  case (Suc b)
  show ?case
  proof (cases "c = b")
    case True
    then have "filter (\<lambda>i. i = c) [a..<b] = []"
      by (auto simp: filter_empty_conv)
    with Suc.prems True show ?thesis by simp
  next
    case False
    with Suc show ?thesis by simp
  qed
qed

lemma snake_index_period: "snake_index k (i + 2 * k) = snake_index k i"
  by (simp add: snake_index_def)

lemma snake_positions_2k:
  assumes "j < k"
  shows "filter (\<lambda>i. snake_index k i = j) [0..<2 * k] = [j, 2 * k - 1 - j]"
proof -
  have split: "[0..<2 * k] = [0..<k] @ [k..<2 * k]"
    by (metis le_add2 mult_2 upt_add_eq_append zero_le)
  have a: "filter (\<lambda>i. snake_index k i = j) [0..<k] = filter (\<lambda>i. i = j) [0..<k]"
    by (rule filter_cong) (auto simp: snake_index_def)
  have b: "filter (\<lambda>i. snake_index k i = j) [k..<2 * k] = filter (\<lambda>i. i = 2 * k - 1 - j) [k..<2 * k]"
    using assms by (intro filter_cong) (auto simp: snake_index_def)
  show ?thesis
    using assms by (simp add: split a b filter_eq_upt)
qed

lemma snake_positions_4k:
  assumes "j < k"
  shows "filter (\<lambda>i. snake_index k i = j) [0..<4 * k]
           = [j, 2 * k - 1 - j, 2 * k + j, 4 * k - 1 - j]"
proof -
  have split: "[0..<4 * k] = [0..<2 * k] @ map (\<lambda>i. i + 2 * k) [0..<2 * k]"
    by (simp add: map_add_upt upt_add_eq_append [of 0 "2 * k" "2 * k", simplified])
  have "filter (\<lambda>i. snake_index k i = j) (map (\<lambda>i. i + 2 * k) [0..<2 * k])
          = map (\<lambda>i. i + 2 * k) (filter (\<lambda>i. snake_index k i = j) [0..<2 * k])"
    by (simp add: filter_map comp_def snake_index_period)
  then show ?thesis
    using assms by (simp add: split snake_positions_2k)
qed

section \<open>What a court receives, and the merge of one court\<close>

lemma length_filter_mono:
  "(\<And>x. x \<in> set xs \<Longrightarrow> P x \<Longrightarrow> Q x) \<Longrightarrow> length (filter P xs) \<le> length (filter Q xs)"
  by (induction xs) auto

lemma placedAt_outside:
  assumes "length sel = 4 * length ids" and "key \<notin> Some ` set ids"
  shows "placedAt ids sel key = []"
proof (cases "ids = []")
  case True
  with assms(1) show ?thesis by (simp add: placedAt_def)
next
  case False
  then have "snake_index (length ids) i < length ids" for i
    by (simp add: snake_index_less)
  then have "Some (ids ! snake_index (length ids) i) \<noteq> key" for i
    using assms(2) by (metis image_eqI nth_mem)
  then show ?thesis by (simp add: placedAt_def)
qed

lemma placedAt_ge4:
  assumes "length sel = 4 * length ids" and "j < length ids"
  shows "4 \<le> length (placedAt ids sel (Some (ids ! j)))"
proof -
  have "length (filter (\<lambda>i. snake_index (length ids) i = j) [0..<4 * length ids]) = 4"
    using assms(2) by (simp add: snake_positions_4k)
  moreover have "length (filter (\<lambda>i. snake_index (length ids) i = j) [0..<4 * length ids])
      \<le> length (filter (\<lambda>i. Some (ids ! snake_index (length ids) i) = Some (ids ! j))
                    [0..<4 * length ids])"
    by (rule length_filter_mono) simp
  ultimately show ?thesis
    by (simp add: placedAt_def assms(1))
qed

lemma placedAt_distinct:
  assumes "length sel = 4 * length ids" and "j < length ids" and "distinct ids"
  shows "placedAt ids sel (Some (ids ! j)) =
           map (nth sel) (filter (\<lambda>i. snake_index (length ids) i = j) [0..<length sel])"
proof -
  have "0 < length ids" using assms(2) by (cases ids) auto
  then have "snake_index (length ids) i < length ids" for i
    by (rule snake_index_less)
  then have "(ids ! snake_index (length ids) i = ids ! j) = (snake_index (length ids) i = j)" for i
    using assms(2,3) by (simp add: nth_eq_iff_index_eq)
  then show ?thesis by (simp add: placedAt_def)
qed

lemma fallbackIds_Nil: "fallbackIds [] = [None, None, None, None]"
  by (simp add: fallbackIds_def)

lemma fallback_fold_beyond:
  "4 \<le> n \<Longrightarrow>
   fold (\<lambda>(i, p) ids. if i < 4 then ids[i := Some (p_id p)] else ids) (enumerate n ps) ids = ids"
  by (induction ps arbitrary: n) simp_all

lemma fallbackIds_ge4:
  assumes "4 \<le> length ps"
  shows "fallbackIds ps = map (\<lambda>p. Some (p_id p)) (take 4 ps)"
proof -
  from assms obtain a b c d rest where ps: "ps = a # b # c # d # rest"
    by (cases ps; simp) (metis Suc_le_length_iff numeral_3_eq_3)
  show ?thesis
    by (simp add: fallbackIds_def ps fallback_fold_beyond)
qed

lemma mergeCourt_allocating:
  assumes "status c = Allocating" and "am (Some (c_id c)) = Some ps"
  shows "playerIds (mergeCourt am c) = (if length ps = 4 then balancedIds ps else fallbackIds ps)"
  using assms by (simp add: mergeCourt_def Let_def)

lemma mergeCourt_empty:
  assumes "status c = Allocating" and "am (Some (c_id c)) = Some []"
  shows "playerIds (mergeCourt am c) = [None, None, None, None]"
  using assms by (simp add: mergeCourt_allocating fallbackIds_Nil)

lemma mergeCourt_full:
  assumes "status c = Allocating" and "am (Some (c_id c)) = Some ps" and "4 \<le> length ps"
  shows "length (occupiedIds (mergeCourt am c)) = 4"
proof (cases "length ps = 4")
  case True
  with assms show ?thesis
    by (simp add: occupiedIds_def mergeCourt_allocating balancedIds_def Let_def)
next
  case False
  have "filter (\<lambda>pid. pid \<noteq> None) (map (\<lambda>p. Some (p_id p)) (take 4 ps))
          = map (\<lambda>p. Some (p_id p)) (take 4 ps)"
    by (induction "take 4 ps") (auto simp: filter_map comp_def)
  with False assms show ?thesis
    by (simp add: occupiedIds_def mergeCourt_allocating fallbackIds_ge4)
qed

lemma targetCourts_mem: "c \<in> set (targetCourts cs) \<longleftrightarrow> c \<in> set cs \<and> status c = Allocating"
  by (auto simp: targetCourts_def)

lemma distinct_filter_take:
  assumes "distinct xs" and "k \<le> length xs"
  shows "filter (\<lambda>x. x \<in> set (take k xs)) xs = take k xs"
proof -
  have gen: "set a \<inter> set b = {} \<Longrightarrow> filter (\<lambda>x. x \<in> set a) (a @ b) = a" for a b :: "'a list"
    by (auto simp: filter_empty_conv)
  have d: "set (take k xs) \<inter> set (drop k xs) = {}"
    using assms(1) by (metis append_take_drop_id distinct_append)
  show ?thesis
    using gen [OF d] by (simp only: append_take_drop_id)
qed

lemma length_fillIds: "length (fillIds allPlayers currentCourts) = courtsToFillCount allPlayers currentCourts"
  using courtsToFill_le [of allPlayers currentCourts] by (simp add: fillIds_def)

lemma out_court_cases:
  assumes "c \<in> set currentCourts" and "status c = Allocating"
  shows "(c_id c \<in> set (fillIds allPlayers currentCourts) \<longrightarrow>
            length (occupiedIds (mergeCourt (assignments rnd allPlayers currentCourts history) c)) = 4) \<and>
         (c_id c \<notin> set (fillIds allPlayers currentCourts) \<longrightarrow>
            playerIds (mergeCourt (assignments rnd allPlayers currentCourts history) c)
              = [None, None, None, None])"
proof -
  let ?am = "assignments rnd allPlayers currentCourts history"
  let ?ids = "fillIds allPlayers currentCourts"
  let ?sel = "selectedPlayers rnd allPlayers currentCourts history"
  have "c \<in> set (targetCourts currentCourts)"
    using assms by (simp add: targetCourts_mem)
  then have key: "Some (c_id c) \<in> (\<lambda>c. Some (c_id c)) ` set (targetCourts currentCourts)"
    by (rule imageI)
  have am: "?am (Some (c_id c)) = Some (placedAt ?ids ?sel (Some (c_id c)))"
    using key by (simp add: assignments_apply fillIds_def)
  have len: "length ?sel = 4 * length ?ids"
    by (simp add: length_selectedPlayers length_fillIds)
  show ?thesis
  proof (intro conjI impI)
    assume "c_id c \<in> set ?ids"
    then obtain j where j: "j < length ?ids" "?ids ! j = c_id c"
      by (auto simp: in_set_conv_nth)
    then have "4 \<le> length (placedAt ?ids ?sel (Some (c_id c)))"
      using placedAt_ge4 [OF len j(1)] by simp
    then show "length (occupiedIds (mergeCourt ?am c)) = 4"
      using mergeCourt_full [of c ?am, OF assms(2) am] by simp
  next
    assume "c_id c \<notin> set ?ids"
    then have "placedAt ?ids ?sel (Some (c_id c)) = []"
      using placedAt_outside [OF len] by blast
    then show "playerIds (mergeCourt ?am c) = [None, None, None, None]"
      using mergeCourt_empty [of c ?am, OF assms(2)] am by simp
  qed
qed

section \<open>Counting the filled courts\<close>

lemma length_fallback_fold:
  "length (fold (\<lambda>(i, p) ids. if i < (4::nat) then ids[i := Some (p_id p)] else ids) xs ids)
     = length ids"
  by (induction xs arbitrary: ids) (simp_all split: prod.splits)

lemma length_fallbackIds: "length (fallbackIds ps) = 4"
  by (simp add: fallbackIds_def length_fallback_fold)

lemma length_balancedIds: "length (balancedIds ps) = 4"
  by (simp add: balancedIds_def Let_def)

lemma out_court_length:
  assumes "c \<in> set currentCourts" and "status c = Allocating"
  shows "length (playerIds (mergeCourt am c)) = 4"
  using assms by (simp add: mergeCourt_def Let_def length_fallbackIds length_balancedIds)

lemma count_full_courts:
  assumes "distinct (map c_id (targetCourts currentCourts))"
  shows "length (filter (\<lambda>c. status c = Allocating \<and> length (occupiedIds c) = 4)
                        (smartAllocation rnd allPlayers currentCourts history))
           = courtsToFillCount allPlayers currentCourts"
proof -
  let ?am = "assignments rnd allPlayers currentCourts history"
  let ?ids = "fillIds allPlayers currentCourts"
  let ?k = "courtsToFillCount allPlayers currentCourts"
  have full: "(status (mergeCourt ?am c) = Allocating \<and> length (occupiedIds (mergeCourt ?am c)) = 4)
                = (status c = Allocating \<and> c_id c \<in> set ?ids)" if "c \<in> set currentCourts" for c
  proof (cases "status c")
    case Playing
    then show ?thesis by (simp add: mergeCourt_status)
  next
    case Allocating
    show ?thesis
    proof (cases "c_id c \<in> set ?ids")
      case True
      with Allocating out_court_cases [OF that Allocating, of allPlayers rnd history]
      show ?thesis by (simp add: mergeCourt_status)
    next
      case False
      with Allocating out_court_cases [OF that Allocating, of allPlayers rnd history]
      show ?thesis by (simp add: mergeCourt_status occupiedIds_def)
    qed
  qed
  have "filter (\<lambda>c. status c = Allocating \<and> length (occupiedIds c) = 4)
               (smartAllocation rnd allPlayers currentCourts history)
        = map (mergeCourt ?am)
              (filter (\<lambda>c. status c = Allocating \<and> c_id c \<in> set ?ids) currentCourts)"
    unfolding smartAllocation_def filter_map comp_def
    by (rule arg_cong [where f = "map (mergeCourt ?am)"], rule filter_cong) (simp_all add: full)
  then have "length (filter (\<lambda>c. status c = Allocating \<and> length (occupiedIds c) = 4)
               (smartAllocation rnd allPlayers currentCourts history))
        = length (filter (\<lambda>c. c_id c \<in> set ?ids) (targetCourts currentCourts))"
    by (simp add: targetCourts_def conj_commute)
  also have "\<dots> = length (filter (\<lambda>x. x \<in> set ?ids) (map c_id (targetCourts currentCourts)))"
    by (simp add: filter_map comp_def)
  also have "\<dots> = length (take ?k (map c_id (targetCourts currentCourts)))"
    using distinct_filter_take [OF assms, of ?k] courtsToFill_le [of allPlayers currentCourts]
    by (simp add: fillIds_def take_map)
  also have "\<dots> = ?k"
    using courtsToFill_le [of allPlayers currentCourts] by simp
  finally show ?thesis .
qed

section \<open>Team balance inside a court\<close>

lemma filter_eq_distinct: "distinct ys \<Longrightarrow> k \<in> set ys \<Longrightarrow> filter (\<lambda>x. k = x) ys = [k]"
  by (induction ys) (auto simp: filter_empty_conv)

lemma length4_conv: "length xs = 4 \<Longrightarrow> \<exists>a b c d. xs = [a, b, c, d]"
  by (simp add: eval_nat_numeral length_Suc_conv) blast

lemma sort_key_unique:
  fixes f :: "'a \<Rightarrow> int"
  assumes "mset xs = mset ys" and "sorted (map f ys)" and "distinct (map f ys)"
  shows "sort_key f xs = ys"
proof (rule properties_for_sort_key)
  show "mset ys = mset xs" using assms(1) by simp
  show "sorted (map f ys)" by (rule assms(2))
  fix k assume k: "k \<in> set ys"
  have inj: "inj_on f (set ys)" using assms(3) by (simp add: distinct_map)
  have "filter (\<lambda>x. f k = f x) ys = filter (\<lambda>x. k = x) ys"
    by (rule filter_cong) (use inj k in \<open>auto dest: inj_onD\<close>)
  moreover have "distinct ys" using assms(3) by (simp add: distinct_map)
  ultimately have ys: "filter (\<lambda>x. f k = f x) ys = [k]"
    using k by (simp add: filter_eq_distinct)
  have "mset (filter (\<lambda>x. f k = f x) xs) = mset (filter (\<lambda>x. f k = f x) ys)"
    by (simp add: assms(1))
  then have "mset (filter (\<lambda>x. f k = f x) xs) = {#k#}" by (simp add: ys)
  then have "filter (\<lambda>x. f k = f x) xs = [k]" by (simp only: mset_single_iff)
  with ys show "filter (\<lambda>x. f k = f x) ys = filter (\<lambda>x. f k = f x) xs" by simp
qed

lemma sort_level4:
  assumes "length ps = 4"
  shows "\<exists>best second third worst.
           sort_cmp cmp_level ps = [best, second, third, worst] \<and>
           mset [best, second, third, worst] = mset ps \<and>
           level second \<le> level best \<and> level third \<le> level second \<and>
           level worst \<le> level third"
proof -
  let ?s = "sort_cmp cmp_level ps"
  have "length ?s = 4" using assms by (simp add: length_sort_cmp)
  then obtain a b c d where s: "?s = [a, b, c, d]"
    using length4_conv by blast
  have "sorted (map (\<lambda>p. - level p) ?s)" by (simp add: sort_cmp_level)
  then have "level b \<le> level a \<and> level c \<le> level b \<and> level d \<le> level c"
    by (simp add: s)
  moreover have "mset [a, b, c, d] = mset ps"
    using mset_sort_cmp [of cmp_level ps] by (simp add: s)
  ultimately show ?thesis using s by blast
qed

lemma balancedIds_sorted:
  assumes "length ps = 4"
  shows "\<exists>best second third worst.
           mset [best, second, third, worst] = mset ps \<and>
           level second \<le> level best \<and> level third \<le> level second \<and>
           level worst \<le> level third \<and>
           balancedIds ps = [Some (p_id best), Some (p_id worst), Some (p_id second),
                             Some (p_id third)] \<and>
           level best = Max (level ` set ps) \<and> level worst = Min (level ` set ps)"
proof -
  from sort_level4 [OF assms] obtain a b c d where
    s: "sort_cmp cmp_level ps = [a, b, c, d]" and m: "mset [a, b, c, d] = mset ps" and
    o: "level b \<le> level a" "level c \<le> level b" "level d \<le> level c"
    by blast
  have set: "set ps = {a, b, c, d}"
    using m by (metis list.simps(15) empty_set mset_eq_setD)
  have "Max (level ` set ps) = level a"
    using o by (simp add: set max_def)
  moreover have "Min (level ` set ps) = level d"
    using o by (simp add: set min_def)
  moreover have "balancedIds ps = [Some (p_id a), Some (p_id d), Some (p_id b), Some (p_id c)]"
    by (simp add: balancedIds_def s)
  ultimately show ?thesis using m o by metis
qed

lemma scenario_levels:
  assumes l: "level p1 = 10" "level p2 = 8" "level p3 = 6" "level p4 = 4"
    and act: "isActive p1" "isActive p2" "isActive p3" "isActive p4"
    and st: "status c = Allocating"
  shows "playerIds (smartAllocation rnd [p1, p2, p3, p4] [c] [] ! 0)
           = [Some (p_id p1), Some (p_id p4), Some (p_id p2), Some (p_id p3)]"
proof -
  let ?P = "[p1, p2, p3, p4]"
  have avail: "availablePlayers ?P [c] = ?P"
    using act st by (simp add: availablePlayers_def playingPlayerIds_def)
  have k: "courtsToFillCount ?P [c] = 1"
    using st by (simp add: courtsToFillCount_def avail targetCourts_def)
  have "selectedStats rnd ?P [c] [] = sortedStats rnd ?P [c] []"
    by (simp add: selectedStats_def playersToTakeCount_def k length_sortedStats avail)
  then have "mset (map player (selectedStats rnd ?P [c] [])) = mset ?P"
    using map_player_playerStats [of rnd ?P "[c]" "[]"]
    by (metis avail mset_map mset_sort_cmp sortedStats_def)
  then have sel: "selectedPlayers rnd ?P [c] [] = ?P"
    unfolding selectedPlayers_def sort_cmp_level
    by (rule sort_key_unique) (simp_all add: l)
  have "placedAt [c_id c] ?P (Some (c_id c)) = ?P"
    by (simp add: placedAt_def snake_index_def upt_rec [of 0] upt_rec [of 1] upt_rec [of 2]
        upt_rec [of 3] upt_rec [of 4])
  then have am: "assignments rnd ?P [c] [] (Some (c_id c)) = Some ?P"
    using st by (simp add: assignments_apply k sel targetCourts_def)
  have "balancedIds ?P = [Some (p_id p1), Some (p_id p4), Some (p_id p2), Some (p_id p3)]"
    by (simp add: balancedIds_def sort_cmp_def cmp_level_def l)
  then show ?thesis
    using st am by (simp add: smartAllocation_def mergeCourt_allocating)
qed

section \<open>Eligibility of the players placed\<close>

lemma playing_fold_inner:
  "fold (\<lambda>pid acc'. case pid of None \<Rightarrow> acc' | Some s \<Rightarrow> if s \<noteq> [] then insert s acc' else acc')
        pids acc
     = acc \<union> {s. s \<noteq> [] \<and> Some s \<in> set pids}"
  by (induction pids arbitrary: acc) (auto split: option.splits)

lemma playingPlayerIds_eq:
  "playingPlayerIds currentCourts =
     {s. s \<noteq> [] \<and> (\<exists>c\<in>set currentCourts. status c = Playing \<and> Some s \<in> set (playerIds c))}"
proof -
  have "fold (\<lambda>c acc.
            if status c = Playing
            then fold (\<lambda>pid acc'. case pid of None \<Rightarrow> acc'
                                    | Some s \<Rightarrow> if s \<noteq> [] then insert s acc' else acc')
                      (playerIds c) acc
            else acc) cs acc
        = acc \<union> {s. s \<noteq> [] \<and> (\<exists>c\<in>set cs. status c = Playing \<and> Some s \<in> set (playerIds c))}"
    for cs :: "'a Court_scheme list" and acc
    by (induction cs arbitrary: acc) (auto simp: playing_fold_inner)
  then show ?thesis by (simp add: playingPlayerIds_def)
qed

lemma available_mem:
  "p \<in> set (availablePlayers allPlayers currentCourts) \<longleftrightarrow>
     p \<in> set allPlayers \<and> isActive p \<and> p_id p \<notin> playingPlayerIds currentCourts"
  by (auto simp: availablePlayers_def)

lemma selected_subset_available:
  "set (selectedPlayers rnd allPlayers currentCourts history)
     \<subseteq> set (availablePlayers allPlayers currentCourts)"
  using selectedPlayers_subseteq [of rnd allPlayers currentCourts history]
  by (metis set_mset_mono set_mset_mset)

lemma placedAt_subset: "set (placedAt ids sel key) \<subseteq> set sel"
  by (auto simp: placedAt_def)

lemma fallback_fold_set:
  "Some x \<in> set (fold (\<lambda>(i, p) ids. if i < (4::nat) then ids[i := Some (p_id p)] else ids) xs ids)
     \<Longrightarrow> Some x \<in> set ids \<or> x \<in> p_id ` snd ` set xs"
proof (induction xs arbitrary: ids)
  case Nil
  then show ?case by simp
next
  case (Cons a xs)
  obtain i p where a: "a = (i, p)" by (cases a)
  from Cons.prems Cons.IH [of "if i < 4 then ids[i := Some (p_id p)] else ids"]
  have "Some x \<in> set (if i < 4 then ids[i := Some (p_id p)] else ids) \<or> x \<in> p_id ` snd ` set xs"
    by (simp add: a)
  moreover have "set (ids[i := Some (p_id p)]) \<subseteq> insert (Some (p_id p)) (set ids)"
    by (rule set_update_subset_insert)
  ultimately show ?case
    by (auto simp: a split: if_splits)
qed

lemma fallbackIds_set: "Some x \<in> set (fallbackIds ps) \<Longrightarrow> x \<in> p_id ` set ps"
proof -
  assume "Some x \<in> set (fallbackIds ps)"
  then have "x \<in> p_id ` snd ` set (enumerate 0 ps)"
    using fallback_fold_set [of x "enumerate 0 ps" "[None, None, None, None]"]
    by (simp add: fallbackIds_def)
  then show ?thesis
    by (auto simp: in_set_enumerate_eq)
qed

lemma balancedIds_set:
  assumes "length ps = 4" and "Some x \<in> set (balancedIds ps)"
  shows "x \<in> p_id ` set ps"
proof -
  from balancedIds_sorted [OF assms(1)] obtain a b c d where
    m: "mset [a, b, c, d] = mset ps" and
    ids: "balancedIds ps = [Some (p_id a), Some (p_id d), Some (p_id b), Some (p_id c)]"
    by blast
  have "set ps = {a, b, c, d}"
    using m by (metis list.simps(15) empty_set mset_eq_setD)
  with assms(2) ids show ?thesis by auto
qed

lemma out_ids_selected:
  assumes "c \<in> set currentCourts" and "status c = Allocating"
    and "Some x \<in> set (playerIds (mergeCourt (assignments rnd allPlayers currentCourts history) c))"
  shows "x \<in> p_id ` set (selectedPlayers rnd allPlayers currentCourts history)"
proof -
  let ?am = "assignments rnd allPlayers currentCourts history"
  let ?sel = "selectedPlayers rnd allPlayers currentCourts history"
  have "c \<in> set (targetCourts currentCourts)"
    using assms by (simp add: targetCourts_mem)
  then have key: "Some (c_id c) \<in> (\<lambda>c. Some (c_id c)) ` set (targetCourts currentCourts)"
    by (rule imageI)
  define ps where "ps = placedAt (fillIds allPlayers currentCourts) ?sel (Some (c_id c))"
  have am: "?am (Some (c_id c)) = Some ps"
    using key by (simp add: assignments_apply fillIds_def ps_def)
  have sub: "set ps \<subseteq> set ?sel" by (simp add: ps_def placedAt_subset)
  have "x \<in> p_id ` set ps"
    using assms(3) mergeCourt_allocating [of c ?am ps, OF assms(2) am]
    by (auto split: if_splits dest: balancedIds_set fallbackIds_set)
  with sub show ?thesis by blast
qed

section \<open>The ids seated on the open courts, as a multiset\<close>

lemma sum_list_split_filter:
  fixes g :: "'a \<Rightarrow> 'b::comm_monoid_add"
  shows "sum_list (map g xs)
           = sum_list (map g (filter P xs)) + sum_list (map g (filter (\<lambda>x. \<not> P x) xs))"
  by (induction xs) (simp_all add: ac_simps)

lemma sum_list_delta:
  fixes m :: "'b::comm_monoid_add"
  shows "a < k \<Longrightarrow> sum_list (map (\<lambda>j. if a = j then m else 0) [0..<k]) = m"
proof (induction k)
  case 0
  then show ?case by simp
next
  case (Suc k)
  show ?case
  proof (cases "a = k")
    case True
    have "map (\<lambda>j. if a = j then m else 0) [0..<k] = map (\<lambda>j. 0) [0..<k]"
      using True by (intro map_cong) auto
    then have "sum_list (map (\<lambda>j. if a = j then m else 0) [0..<k])
                 = sum_list (map (\<lambda>j. 0::'b) [0..<k])"
      by (rule arg_cong)
    then have "sum_list (map (\<lambda>j. if a = j then m else 0) [0..<k]) = 0"
      by (simp only: sum_list_0)
    with True show ?thesis by simp
  next
    case False
    with Suc show ?thesis by simp
  qed
qed

lemma partition_by_index:
  assumes "\<forall>i\<in>set xs. h i < k"
  shows "sum_list (map (\<lambda>j. mset (map e (filter (\<lambda>i. h i = j) xs))) [0..<k]) = mset (map e xs)"
  using assms
proof (induction xs)
  case Nil
  show ?case by (simp add: sum_list_0)
next
  case (Cons x xs)
  have "sum_list (map (\<lambda>j. mset (map e (filter (\<lambda>i. h i = j) (x # xs)))) [0..<k])
      = sum_list (map (\<lambda>j. (if h x = j then {#e x#} else {#})
                             + mset (map e (filter (\<lambda>i. h i = j) xs))) [0..<k])"
    by (rule arg_cong [where f = sum_list], rule map_cong) simp_all
  also have "\<dots> = sum_list (map (\<lambda>j. if h x = j then {#e x#} else {#}) [0..<k])
                  + sum_list (map (\<lambda>j. mset (map e (filter (\<lambda>i. h i = j) xs))) [0..<k])"
    by (simp add: sum_list_addf)
  also have "\<dots> = {#e x#} + mset (map e xs)"
    using Cons by (simp add: sum_list_delta)
  finally show ?case by simp
qed

lemma balanced_occupied_mset:
  assumes "length ps = 4" and "playerIds c = balancedIds ps"
  shows "mset (occupiedIds c) = mset (map p_id ps)"
proof -
  from balancedIds_sorted [OF assms(1)] obtain a b c d where
    m: "mset [a, b, c, d] = mset ps" and
    ids: "balancedIds ps = [Some (p_id a), Some (p_id d), Some (p_id b), Some (p_id c)]"
    by blast
  have "mset (map p_id ps) = image_mset p_id (mset [a, b, c, d])"
    by (simp add: m [symmetric] del: mset.simps)
  then show ?thesis by (simp add: occupiedIds_def assms(2) ids)
qed

lemma take_eq_map_nth: "k \<le> length xs \<Longrightarrow> take k xs = map (nth xs) [0..<k]"
  by (rule nth_equalityI) simp_all

lemma allocated_ids_mset:
  assumes d: "distinct (map c_id (targetCourts currentCourts))"
  shows "sum_list (map (\<lambda>c. mset (occupiedIds
                                 (mergeCourt (assignments rnd allPlayers currentCourts history) c)))
                       (targetCourts currentCourts))
           = mset (map p_id (selectedPlayers rnd allPlayers currentCourts history))"
proof -
  let ?am = "assignments rnd allPlayers currentCourts history"
  let ?sel = "selectedPlayers rnd allPlayers currentCourts history"
  let ?tcs = "targetCourts currentCourts"
  let ?k = "courtsToFillCount allPlayers currentCourts"
  let ?ids = "fillIds allPlayers currentCourts"
  let ?G = "\<lambda>c. mset (occupiedIds (mergeCourt ?am c))"
  have kle: "?k \<le> length ?tcs" by (rule courtsToFill_le)
  have len: "length ?sel = 4 * length ?ids"
    by (simp add: length_selectedPlayers length_fillIds)
  have ids: "?ids = take ?k (map c_id ?tcs)" by (simp add: fillIds_def take_map)
  have tc: "c \<in> set currentCourts \<and> status c = Allocating" if "c \<in> set ?tcs" for c
    using that by (simp add: targetCourts_mem)
  have rest: "?G c = {#}" if "c \<in> set (drop ?k ?tcs)" for c
  proof -
    have c: "c \<in> set ?tcs" using that by (rule in_set_dropD)
    have "c_id c \<in> set (drop ?k (map c_id ?tcs))"
      using that by (simp add: drop_map)
    moreover have "set (take ?k (map c_id ?tcs)) \<inter> set (drop ?k (map c_id ?tcs)) = {}"
      using d by (metis append_take_drop_id distinct_append)
    ultimately have "c_id c \<notin> set ?ids" using ids by auto
    then have "playerIds (mergeCourt ?am c) = [None, None, None, None]"
      using out_court_cases [of c currentCourts allPlayers rnd history] tc [OF c] by blast
    then show ?thesis by (simp add: occupiedIds_def)
  qed
  have first: "?G (?tcs ! j)
                 = mset (map (p_id \<circ> nth ?sel)
                             (filter (\<lambda>i. snake_index ?k i = j) [0..<4 * ?k]))"
    if "j < ?k" for j
  proof -
    let ?c = "?tcs ! j"
    have j: "j < length ?ids" using that by (simp add: length_fillIds)
    have c: "?c \<in> set ?tcs" using that kle by simp
    have idj: "?ids ! j = c_id ?c" using that kle by (simp add: fillIds_def)
    have dids: "distinct ?ids" using d by (simp add: ids distinct_take)
    define ps where "ps = map (nth ?sel) (filter (\<lambda>i. snake_index ?k i = j) [0..<4 * ?k])"
    have "placedAt ?ids ?sel (Some (c_id ?c)) = ps"
      using placedAt_distinct [OF len j dids] by (simp add: idj ps_def length_fillIds len)
    moreover have "Some (c_id ?c) \<in> (\<lambda>c. Some (c_id c)) ` set ?tcs"
      using c by (rule imageI)
    ultimately have am: "?am (Some (c_id ?c)) = Some ps"
      by (simp add: assignments_apply fillIds_def)
    have l4: "length ps = 4" using that by (simp add: ps_def snake_positions_4k)
    have "playerIds (mergeCourt ?am ?c) = balancedIds ps"
      using mergeCourt_allocating [of ?c ?am ps] tc [OF c] am l4 by simp
    then have "?G ?c = mset (map p_id ps)"
      by (rule balanced_occupied_mset [OF l4])
    then show ?thesis by (simp add: ps_def)
  qed
  have "sum_list (map ?G ?tcs) = sum_list (map ?G (take ?k ?tcs)) + sum_list (map ?G (drop ?k ?tcs))"
    by (metis append_take_drop_id map_append sum_list_append)
  also have "sum_list (map ?G (drop ?k ?tcs)) = 0"
    using rest by (simp add: sum_list_0 cong: map_cong)
  also have "sum_list (map ?G (take ?k ?tcs)) = sum_list (map (\<lambda>j. ?G (?tcs ! j)) [0..<?k])"
    by (simp add: take_eq_map_nth [OF kle] comp_def)
  also have "\<dots> = sum_list (map (\<lambda>j. mset (map (p_id \<circ> nth ?sel)
                             (filter (\<lambda>i. snake_index ?k i = j) [0..<4 * ?k]))) [0..<?k])"
    by (rule arg_cong [where f = sum_list], rule map_cong) (simp_all add: first)
  also have "\<dots> = mset (map (p_id \<circ> nth ?sel) [0..<4 * ?k])"
  proof (cases "0 < ?k")
    case True
    then show ?thesis
      by (intro partition_by_index) (simp add: snake_index_less)
  next
    case False
    then show ?thesis by simp
  qed
  also have "\<dots> = mset (map p_id ?sel)"
    using map_nth [of ?sel] by (metis length_selectedPlayers map_map)
  finally show ?thesis by simp
qed

section \<open>Distinct ids, assignment lists and priority\<close>

lemma occupiedIds_mem: "x \<in> set (occupiedIds c) \<longleftrightarrow> Some x \<in> set (playerIds c)"
  by (auto simp: occupiedIds_def image_iff)

lemma not_playing_iff: "(status c \<noteq> Playing) = (status c = Allocating)"
  by (cases "status c") simp_all

lemma out_ids_mset:
  assumes "distinct (map c_id (targetCourts currentCourts))"
  shows "mset (concat (map occupiedIds (smartAllocation rnd allPlayers currentCourts history)))
           = mset (concat (map occupiedIds (filter (\<lambda>c. status c = Playing) currentCourts))
                   @ map p_id (selectedPlayers rnd allPlayers currentCourts history))"
proof -
  let ?am = "assignments rnd allPlayers currentCourts history"
  let ?G = "\<lambda>c. mset (occupiedIds (mergeCourt ?am c))"
  let ?P = "\<lambda>c. status c = Playing"
  have "mset (concat (map occupiedIds (smartAllocation rnd allPlayers currentCourts history)))
          = sum_list (map ?G currentCourts)"
    by (simp add: smartAllocation_def mset_concat comp_def)
  also have "\<dots> = sum_list (map ?G (filter ?P currentCourts))
                  + sum_list (map ?G (filter (\<lambda>c. \<not> ?P c) currentCourts))"
    by (rule sum_list_split_filter)
  also have "map ?G (filter ?P currentCourts)
               = map (\<lambda>c. mset (occupiedIds c)) (filter ?P currentCourts)"
    by (rule map_cong) (simp_all add: mergeCourt_playing)
  also have "filter (\<lambda>c. \<not> ?P c) currentCourts = targetCourts currentCourts"
    by (simp add: targetCourts_def not_playing_iff)
  also have "sum_list (map ?G (targetCourts currentCourts))
               = mset (map p_id (selectedPlayers rnd allPlayers currentCourts history))"
    by (rule allocated_ids_mset [OF assms])
  finally show ?thesis
    by (simp add: mset_concat comp_def)
qed

lemma selected_ids_distinct:
  assumes "distinct (map p_id allPlayers)"
  shows "distinct (map p_id (selectedPlayers rnd allPlayers currentCourts history))"
proof -
  have "mset (availablePlayers allPlayers currentCourts) \<subseteq># mset allPlayers"
    by (simp add: availablePlayers_def)
  then have "mset (selectedPlayers rnd allPlayers currentCourts history) \<subseteq># mset allPlayers"
    using selectedPlayers_subseteq [of rnd allPlayers currentCourts history]
    by (rule subset_mset.order_trans [rotated])
  then obtain C where "mset allPlayers
      = mset (selectedPlayers rnd allPlayers currentCourts history) + C"
    by (auto simp: subset_mset.le_iff_add)
  moreover obtain rest where "C = mset rest" by (metis ex_mset)
  ultimately have "mset (map p_id (selectedPlayers rnd allPlayers currentCourts history @ rest))
      = mset (map p_id allPlayers)"
    by simp
  then have "distinct (map p_id (selectedPlayers rnd allPlayers currentCourts history @ rest))"
    using assms mset_eq_imp_distinct_iff by blast
  then show ?thesis by simp
qed

lemma priority_before:
  assumes "a \<in> set xs" and "b \<in> set (take n (sort_cmp cmp_priority xs))"
    and "playedCount a < playedCount b"
  shows "a \<in> set (take n (sort_cmp cmp_priority xs))"
proof -
  let ?q = "sort_cmp cmp_priority xs"
  from assms(2) obtain j where j: "j < n" "j < length ?q" "?q ! j = b"
    by (auto simp: in_set_conv_nth)
  from assms(1) have "a \<in> set ?q" by (simp add: set_sort_cmp)
  then obtain i where i: "i < length ?q" "?q ! i = a" by (auto simp: in_set_conv_nth)
  have "i < j"
  proof (rule ccontr)
    assume "\<not> i < j"
    then have "j < i \<or> j = i" by auto
    then have "prio_le b a \<or> b = a"
      using sorted_sort_priority [of xs] i j by (auto simp: sorted_wrt_iff_nth_less)
    with assms(3) show False by (auto simp: prio_le_def)
  qed
  with i j have "i < length (take n ?q)" "take n ?q ! i = a" by simp_all
  then show ?thesis by (metis nth_mem)
qed

section \<open>Statistics of one player\<close>

lemma scan_history_from: "scan_history nm history = scan_from nm 0 history (0, - 1)"
  by (simp add: scan_history_def scan_from_def)

lemma playerStat_alt:
  "playerStat history r p =
     \<lparr>player = p,
      playedCount = fst (scan_from (p_name p) 0 history (0, - 1)),
      restRounds = (if snd (scan_from (p_name p) 0 history (0, - 1)) = - 1 then 999
                    else int (length history) - snd (scan_from (p_name p) 0 history (0, - 1))),
      random_v = r\<rparr>"
  by (simp add: playerStat_def scan_history_from case_prod_beta)

lemma playedCount_playerStat:
  "playedCount (playerStat history r p) = int (matchesWith (p_name p) history)"
  using scan_from_count [of "p_name p" 0 history 0 "- 1"]
  by (simp add: playerStat_alt)

lemma restRounds_never:
  assumes "matchesWith (p_name p) history = 0"
  shows "restRounds (playerStat history r p) = 999"
proof -
  have "\<forall>j<length history. \<not> roundHasPlayer (p_name p) (history ! j)"
    using assms by (simp add: matchesWith_zero_iff)
  then have "snd (scan_from (p_name p) 0 history (0, - 1)) = - 1"
    using scan_from_last [of "p_name p" 0 history 0 "- 1"] by auto
  then show ?thesis
    by (simp add: playerStat_alt)
qed

lemma restRounds_played:
  assumes "0 < matchesWith (p_name p) history"
  shows "\<exists>j<length history.
           roundHasPlayer (p_name p) (history ! j) \<and>
           (\<forall>j'. j < j' \<and> j' < length history \<longrightarrow> \<not> roundHasPlayer (p_name p) (history ! j')) \<and>
           restRounds (playerStat history r p) = int (length history) - int j"
proof -
  have "\<not> (\<forall>j<length history. \<not> roundHasPlayer (p_name p) (history ! j))"
    using assms by (simp add: matchesWith_zero_iff [symmetric])
  then obtain j where j: "j < length history"
      "snd (scan_from (p_name p) 0 history (0, - 1)) = int j"
      "roundHasPlayer (p_name p) (history ! j)"
      "\<forall>j'. j < j' \<and> j' < length history \<longrightarrow> \<not> roundHasPlayer (p_name p) (history ! j')"
    using scan_from_last [of "p_name p" 0 history 0 "- 1"] by auto
  have "restRounds (playerStat history r p) = int (length history) - int j"
    using j(2) by (simp add: playerStat_alt)
  with j show ?thesis by blast
qed

lemma never_played_first:
  assumes "i < length (sort_cmp cmp_priority xs)" and "j < length (sort_cmp cmp_priority xs)"
    and "playedCount (sort_cmp cmp_priority xs ! i) < playedCount (sort_cmp cmp_priority xs ! j)"
  shows "i < j"
proof (rule ccontr)
  assume "\<not> i < j"
  then have "j < i \<or> j = i" by auto
  then have "prio_le (sort_cmp cmp_priority xs ! j) (sort_cmp cmp_priority xs ! i) \<or> j = i"
    using sorted_sort_priority [of xs] assms(1) by (auto simp: sorted_wrt_iff_nth_less)
  with assms(3) show False by (auto simp: prio_le_def)
qed

section \<open>Recording a match\<close>

lemma recordMatchStart_cases:
  assumes "find (\<lambda>c. c_id c = courtId) courts = Some court"
  shows "recordMatchStart players courts courtId timestamp newId rounds =
     (if withinWindow timestamp rounds
      then (if isDuplicate (last rounds) (newMatchFor players court timestamp)
                 (playerNames (newMatchFor players court timestamp))
            then rounds
            else joinLastRound rounds (newMatchFor players court timestamp))
      else startNewRound rounds (newMatchFor players court timestamp) newId timestamp)"
  using assms
  by (cases rounds rule: rev_cases)
     (simp_all add: recordMatchStart_def roundsUpdater_def Let_def withinWindow_def
        joinLastRound_def startNewRound_def)

lemma joinLastRound_neq: "rounds \<noteq> [] \<Longrightarrow> joinLastRound rounds m \<noteq> rounds"
proof (cases rounds rule: rev_cases)
  case Nil
  assume "rounds \<noteq> []"
  with Nil show ?thesis by simp
next
  case (snoc rs r)
  have "length (matches (r\<lparr>matches := matches r @ [m]\<rparr>)) \<noteq> length (matches r)" by simp
  then have "r\<lparr>matches := matches r @ [m]\<rparr> \<noteq> r" by metis
  with snoc show ?thesis by (simp add: joinLastRound_def)
qed

lemma joinLastRound_neq_new: "rounds \<noteq> [] \<Longrightarrow> joinLastRound rounds m \<noteq> startNewRound rounds m' i t"
proof -
  assume "rounds \<noteq> []"
  then have "length (joinLastRound rounds m) = length rounds"
    by (simp add: joinLastRound_def)
  moreover have "length (startNewRound rounds m' i t) = Suc (length rounds)"
    by (simp add: startNewRound_def)
  ultimately show ?thesis by (metis n_not_Suc_n)
qed

section \<open>The open courts of the output\<close>

lemma targetCourts_out:
  "targetCourts (smartAllocation rnd allPlayers currentCourts history)
     = map (mergeCourt (assignments rnd allPlayers currentCourts history))
           (targetCourts currentCourts)"
  by (simp add: smartAllocation_def targetCourts_def filter_map comp_def mergeCourt_status)

lemma open_seated_mset:
  assumes "distinct (map c_id (targetCourts currentCourts))"
  shows "mset (seatedIds (targetCourts (smartAllocation rnd allPlayers currentCourts history)))
           = mset (map p_id (selectedPlayers rnd allPlayers currentCourts history))"
  using allocated_ids_mset [OF assms, of rnd allPlayers history]
  by (simp add: seatedIds_def targetCourts_out mset_concat comp_def)

lemma filled_court_list:
  assumes d: "distinct (map c_id (targetCourts currentCourts))"
    and j: "j < courtsToFillCount allPlayers currentCourts"
  shows "assignments rnd allPlayers currentCourts history
           (Some (c_id (targetCourts currentCourts ! j)))
         = Some (map (nth (selectedPlayers rnd allPlayers currentCourts history))
                     (filter (\<lambda>i. snake_index (courtsToFillCount allPlayers currentCourts) i = j)
                             [0..<4 * courtsToFillCount allPlayers currentCourts]))"
proof -
  let ?sel = "selectedPlayers rnd allPlayers currentCourts history"
  let ?tcs = "targetCourts currentCourts"
  let ?k = "courtsToFillCount allPlayers currentCourts"
  let ?ids = "fillIds allPlayers currentCourts"
  let ?c = "?tcs ! j"
  have kle: "?k \<le> length ?tcs" by (rule courtsToFill_le)
  have len: "length ?sel = 4 * length ?ids"
    by (simp add: length_selectedPlayers length_fillIds)
  have jl: "j < length ?ids" using j by (simp add: length_fillIds)
  have c: "?c \<in> set ?tcs" using j kle by simp
  have idj: "?ids ! j = c_id ?c" using j kle by (simp add: fillIds_def)
  have "distinct (take ?k (map c_id ?tcs))" using d by (rule distinct_take)
  then have dids: "distinct ?ids" by (simp add: fillIds_def take_map)
  have "placedAt ?ids ?sel (Some (c_id ?c))
          = map (nth ?sel) (filter (\<lambda>i. snake_index ?k i = j) [0..<4 * ?k])"
    using placedAt_distinct [OF len jl dids] by (simp add: idj length_fillIds len)
  moreover have "Some (c_id ?c) \<in> (\<lambda>c. Some (c_id c)) ` set ?tcs"
    using c by (rule imageI)
  ultimately show ?thesis
    by (simp add: assignments_apply fillIds_def)
qed

lemma sorted_selected:
  "sorted (map (\<lambda>p. - level p) (selectedPlayers rnd allPlayers currentCourts history))"
  by (simp add: selectedPlayers_def sort_cmp_level)

lemma balancedIds_sorted_input:
  assumes "sorted (map (\<lambda>p. - level p) [a, b, c, d])"
  shows "balancedIds [a, b, c, d] = [Some (p_id a), Some (p_id d), Some (p_id b), Some (p_id c)]"
proof -
  have "sort_cmp cmp_level [a, b, c, d] = [a, b, c, d]"
    unfolding sort_cmp_level using assms by (rule sort_key_id_if_sorted)
  then show ?thesis by (simp add: balancedIds_def)
qed

lemma filled_court_slots:
  assumes d: "distinct (map c_id (targetCourts currentCourts))"
    and j: "j < courtsToFillCount allPlayers currentCourts"
  shows "playerIds (targetCourts (smartAllocation rnd allPlayers currentCourts history) ! j)
         = [Some (p_id (selectedPlayers rnd allPlayers currentCourts history ! j)),
            Some (p_id (selectedPlayers rnd allPlayers currentCourts history
                          ! (4 * courtsToFillCount allPlayers currentCourts - 1 - j))),
            Some (p_id (selectedPlayers rnd allPlayers currentCourts history
                          ! (2 * courtsToFillCount allPlayers currentCourts - 1 - j))),
            Some (p_id (selectedPlayers rnd allPlayers currentCourts history
                          ! (2 * courtsToFillCount allPlayers currentCourts + j)))]"
proof -
  let ?am = "assignments rnd allPlayers currentCourts history"
  let ?sel = "selectedPlayers rnd allPlayers currentCourts history"
  let ?tcs = "targetCourts currentCourts"
  let ?k = "courtsToFillCount allPlayers currentCourts"
  let ?c = "?tcs ! j"
  let ?ps = "[?sel ! j, ?sel ! (2 * ?k - 1 - j), ?sel ! (2 * ?k + j), ?sel ! (4 * ?k - 1 - j)]"
  have kle: "?k \<le> length ?tcs" by (rule courtsToFill_le)
  have c: "?c \<in> set ?tcs" using j kle by simp
  then have st: "status ?c = Allocating" by (simp add: targetCourts_mem)
  have am: "?am (Some (c_id ?c)) = Some ?ps"
    using filled_court_list [OF d j, of rnd history] j by (simp add: snake_positions_4k)
  have len: "length ?sel = 4 * ?k" by (rule length_selectedPlayers)
  have srt: "sorted (map (\<lambda>p. - level p) ?sel)" by (rule sorted_selected)
  have le: "- level (?sel ! m) \<le> - level (?sel ! n)" if "m \<le> n" "n < 4 * ?k" for m n
    using srt that len by (simp add: sorted_iff_nth_mono)
  have "sorted (map (\<lambda>p. - level p) ?ps)"
    using j le [of j "2 * ?k - 1 - j"] le [of "2 * ?k - 1 - j" "2 * ?k + j"]
      le [of "2 * ?k + j" "4 * ?k - 1 - j"] le [of j "2 * ?k + j"] le [of j "4 * ?k - 1 - j"]
      le [of "2 * ?k - 1 - j" "4 * ?k - 1 - j"]
    by simp
  then have "balancedIds ?ps
      = [Some (p_id (?sel ! j)), Some (p_id (?sel ! (4 * ?k - 1 - j))),
         Some (p_id (?sel ! (2 * ?k - 1 - j))), Some (p_id (?sel ! (2 * ?k + j)))]"
    by (rule balancedIds_sorted_input)
  moreover have "playerIds (mergeCourt ?am ?c) = balancedIds ?ps"
    using mergeCourt_allocating [of ?c ?am ?ps] st am by simp
  moreover have "targetCourts (smartAllocation rnd allPlayers currentCourts history) ! j
                   = mergeCourt ?am ?c"
    using j kle by (simp add: targetCourts_out)
  ultimately show ?thesis by simp
qed

lemma unfilled_court_slots:
  assumes d: "distinct (map c_id (targetCourts currentCourts))"
    and j: "courtsToFillCount allPlayers currentCourts \<le> j" "j < length (targetCourts currentCourts)"
  shows "playerIds (targetCourts (smartAllocation rnd allPlayers currentCourts history) ! j)
           = [None, None, None, None]"
proof -
  let ?am = "assignments rnd allPlayers currentCourts history"
  let ?tcs = "targetCourts currentCourts"
  let ?k = "courtsToFillCount allPlayers currentCourts"
  let ?c = "?tcs ! j"
  have c: "?c \<in> set ?tcs" using j by simp
  then have cc: "?c \<in> set currentCourts" "status ?c = Allocating"
    by (simp_all add: targetCourts_mem)
  have "c_id ?c \<notin> set (fillIds allPlayers currentCourts)"
  proof
    assume "c_id ?c \<in> set (fillIds allPlayers currentCourts)"
    then obtain i where i: "i < ?k" "i < length ?tcs" "c_id (?tcs ! i) = c_id ?c"
      by (auto simp: fillIds_def in_set_conv_nth)
    then have "map c_id ?tcs ! i = map c_id ?tcs ! j" using j by simp
    moreover have "i < length (map c_id ?tcs)" "j < length (map c_id ?tcs)" using i(2) j(2) by simp_all
    ultimately have "i = j" using d nth_eq_iff_index_eq [of "map c_id ?tcs" i j] by blast
    with i(1) j(1) show False by simp
  qed
  then have "playerIds (mergeCourt ?am ?c) = [None, None, None, None]"
    using out_court_cases [OF cc, of allPlayers rnd history] by blast
  then show ?thesis using j by (simp add: targetCourts_out)
qed

lemma player_ids_inj:
  assumes "distinct (map p_id allPlayers)"
  shows "distinct (map (\<lambda>s. p_id (player s)) (playerStats rnd allPlayers currentCourts history))"
proof -
  have "distinct (map p_id (availablePlayers allPlayers currentCourts))"
    using assms by (simp add: availablePlayers_def distinct_map_filter)
  then have "distinct (map p_id (map player (playerStats rnd allPlayers currentCourts history)))"
    by (simp only: map_player_playerStats)
  then show ?thesis by (simp add: comp_def)
qed

lemma seated_iff_selected:
  assumes "distinct (map c_id (targetCourts currentCourts))" and "distinct (map p_id allPlayers)"
    and "s \<in> set (playerStats rnd allPlayers currentCourts history)"
  shows "p_id (player s)
           \<in> set (seatedIds (targetCourts (smartAllocation rnd allPlayers currentCourts history)))
         \<longleftrightarrow> s \<in> set (selectedStats rnd allPlayers currentCourts history)"
proof -
  let ?stats = "playerStats rnd allPlayers currentCourts history"
  let ?sel = "selectedStats rnd allPlayers currentCourts history"
  let ?f = "\<lambda>s. p_id (player s)"
  have "mset (seatedIds (targetCourts (smartAllocation rnd allPlayers currentCourts history)))
          = mset (map ?f ?sel)"
    using open_seated_mset [OF assms(1), of rnd allPlayers history]
    by (simp add: mset_selectedPlayers multiset.map_comp comp_def)
  then have seated: "set (seatedIds (targetCourts (smartAllocation rnd allPlayers currentCourts history)))
          = ?f ` set ?sel"
    by (metis mset_eq_setD set_map)
  have sub: "set ?sel \<subseteq> set ?stats"
    using set_take_subset [of "playersToTakeCount allPlayers currentCourts"
        "sortedStats rnd allPlayers currentCourts history"]
    by (simp add: selectedStats_def sortedStats_def set_sort_cmp)
  have inj: "inj_on ?f (set ?stats)"
    using player_ids_inj [OF assms(2), of rnd currentCourts history] by (simp add: distinct_map)
  show ?thesis
    unfolding seated using inj sub assms(3) by (auto dest: inj_onD)
qed

section \<open>The claims\<close>

subsection \<open>C1: capacity\<close>

text \<open>
  Claim C1. Court ids are unique in the data model, so the allocating courts of an input
  have pairwise distinct ids. For such an input the number of output allocating courts
  with exactly 4 occupied slots is \<open>min\<close> of the number of input allocating courts and
  the number of eligible players divided by 4 (rounded down). An output allocating court
  has 4 slots, and either 4 of them are occupied or all 4 are empty. With fewer than 4
  eligible players (also none) every allocating court is reset to 4 empty slots; the
  function returns this list of courts as its result, it has no error branch.
\<close>

theorem C1_capacity:
  "(distinct (map c_id (targetCourts currentCourts)) \<longrightarrow>
      fullCourts (smartAllocation rnd allPlayers currentCourts history)
        = min (length (targetCourts currentCourts))
              (length (availablePlayers allPlayers currentCourts) div 4)) \<and>
   (\<forall>c\<in>set (smartAllocation rnd allPlayers currentCourts history).
      status c = Allocating \<longrightarrow>
        length (playerIds c) = 4 \<and>
        (length (occupiedIds c) = 4 \<or> playerIds c = [None, None, None, None])) \<and>
   (length (availablePlayers allPlayers currentCourts) < 4 \<longrightarrow>
      (\<forall>c\<in>set (smartAllocation rnd allPlayers currentCourts history).
         status c = Allocating \<longrightarrow> playerIds c = [None, None, None, None]))"
proof (intro conjI impI ballI)
  assume "distinct (map c_id (targetCourts currentCourts))"
  then show "fullCourts (smartAllocation rnd allPlayers currentCourts history)
        = min (length (targetCourts currentCourts))
              (length (availablePlayers allPlayers currentCourts) div 4)"
    by (simp add: fullCourts_def count_full_courts courtsToFillCount_def)
next
  fix c' assume c': "c' \<in> set (smartAllocation rnd allPlayers currentCourts history)"
    and st: "status c' = Allocating"
  let ?am = "assignments rnd allPlayers currentCourts history"
  from c' obtain c where c: "c \<in> set currentCourts" "c' = mergeCourt ?am c"
    by (auto simp: smartAllocation_def)
  with st have sc: "status c = Allocating" by (simp add: mergeCourt_status)
  show "length (playerIds c') = 4"
    using c sc by (simp add: out_court_length)
  show "length (occupiedIds c') = 4 \<or> playerIds c' = [None, None, None, None]"
    using out_court_cases [OF c(1) sc, of allPlayers rnd history] c(2) by blast
next
  fix c' assume few: "length (availablePlayers allPlayers currentCourts) < 4"
    and c': "c' \<in> set (smartAllocation rnd allPlayers currentCourts history)"
    and st: "status c' = Allocating"
  let ?am = "assignments rnd allPlayers currentCourts history"
  from c' obtain c where c: "c \<in> set currentCourts" "c' = mergeCourt ?am c"
    by (auto simp: smartAllocation_def)
  with st have sc: "status c = Allocating" by (simp add: mergeCourt_status)
  from few have "courtsToFillCount allPlayers currentCourts = 0"
    by (simp add: courtsToFillCount_def)
  then have "fillIds allPlayers currentCourts = []"
    by (simp add: fillIds_def)
  then show "playerIds c' = [None, None, None, None]"
    using out_court_cases [OF c(1) sc, of allPlayers rnd history] c(2) by simp
qed

text \<open>
  Eight eligible players and two open courts: both courts are filled. Three eligible
  players and one open court: the court is reset to empty.
\<close>

theorem C1_capacity_witness:
  "distinct (map c_id (targetCourts courts_two)) \<and>
   length (availablePlayers roster8 courts_two) = 8 \<and>
   fullCourts (smartAllocation rnd0 roster8 courts_two []) = 2 \<and>
   status (smartAllocation rnd0 roster8 courts_two [] ! 0) = Allocating \<and>
   length (playerIds (smartAllocation rnd0 roster8 courts_two [] ! 0)) = 4 \<and>
   length (availablePlayers (take 3 roster4) court_one) = 3 \<and>
   status (smartAllocation rnd0 (take 3 roster4) court_one [] ! 0) = Allocating \<and>
   playerIds (smartAllocation rnd0 (take 3 roster4) court_one [] ! 0)
     = [None, None, None, None]"
proof -
  have d: "distinct (map c_id (targetCourts courts_two))" by code_simp
  have n: "length (availablePlayers roster8 courts_two) = 8" by code_simp
  have t: "length (targetCourts courts_two) = 2" by code_simp
  from C1_capacity [of courts_two rnd0 roster8 "[]"] d
  have full: "fullCourts (smartAllocation rnd0 roster8 courts_two []) = 2"
    by (simp add: n t)
  have "length (smartAllocation rnd0 roster8 courts_two []) = 2" by code_simp
  then have mem: "smartAllocation rnd0 roster8 courts_two [] ! 0
                    \<in> set (smartAllocation rnd0 roster8 courts_two [])" by simp
  have st: "status (smartAllocation rnd0 roster8 courts_two [] ! 0) = Allocating" by code_simp
  from C1_capacity [of courts_two rnd0 roster8 "[]"] mem st
  have four: "length (playerIds (smartAllocation rnd0 roster8 courts_two [] ! 0)) = 4"
    by blast
  have n3: "length (availablePlayers (take 3 roster4) court_one) = 3" by code_simp
  then have few: "length (availablePlayers (take 3 roster4) court_one) < 4" by simp
  have "length (smartAllocation rnd0 (take 3 roster4) court_one []) = 1" by code_simp
  then have mem3: "smartAllocation rnd0 (take 3 roster4) court_one [] ! 0
                    \<in> set (smartAllocation rnd0 (take 3 roster4) court_one [])" by simp
  have st3: "status (smartAllocation rnd0 (take 3 roster4) court_one [] ! 0) = Allocating"
    by code_simp
  from C1_capacity [of court_one rnd0 "take 3 roster4" "[]"] few mem3 st3
  have reset: "playerIds (smartAllocation rnd0 (take 3 roster4) court_one [] ! 0)
     = [None, None, None, None]"
    by blast
  from d n full st four n3 st3 reset show ?thesis by (intro conjI)
qed

subsection \<open>C2: team balance\<close>

text \<open>
  Claim C2. For every output court that received exactly 4 players, these 4 can be
  named Best, Second, Third, Worst in descending order of level, and the output slots
  are [Best, Worst, Second, Third]; slot 0 holds the maximum level and slot 1 the
  minimum level of the four. For 4 eligible players of levels 10, 8, 6, 4, one open
  court and an empty history, the output slots are the players of level 10, 4, 8, 6,
  whatever the random draws.
\<close>

theorem C2_team_balance:
  "(\<forall>i<length currentCourts. \<forall>ps.
      status (currentCourts ! i) = Allocating \<and>
      assignments rnd allPlayers currentCourts history (Some (c_id (currentCourts ! i))) = Some ps \<and>
      length ps = 4 \<longrightarrow>
        (\<exists>best second third worst.
           mset [best, second, third, worst] = mset ps \<and>
           level second \<le> level best \<and> level third \<le> level second \<and>
           level worst \<le> level third \<and>
           playerIds (smartAllocation rnd allPlayers currentCourts history ! i)
             = [Some (p_id best), Some (p_id worst), Some (p_id second), Some (p_id third)] \<and>
           level best = Max (level ` set ps) \<and> level worst = Min (level ` set ps))) \<and>
   (\<forall>p1 p2 p3 p4 c.
      level p1 = 10 \<and> level p2 = 8 \<and> level p3 = 6 \<and> level p4 = 4 \<and>
      isActive p1 \<and> isActive p2 \<and> isActive p3 \<and> isActive p4 \<and>
      status (c :: 'a Court_scheme) = Allocating \<longrightarrow>
        playerIds (smartAllocation rnd [p1, p2, p3, p4] [c] [] ! 0)
          = [Some (p_id p1), Some (p_id p4), Some (p_id p2), Some (p_id p3)])"
proof (intro conjI allI impI)
  fix i ps
  assume i: "i < length currentCourts"
    and h: "status (currentCourts ! i) = Allocating \<and>
      assignments rnd allPlayers currentCourts history (Some (c_id (currentCourts ! i))) = Some ps \<and>
      length ps = 4"
  let ?am = "assignments rnd allPlayers currentCourts history"
  have eq: "playerIds (smartAllocation rnd allPlayers currentCourts history ! i) = balancedIds ps"
    using i h mergeCourt_allocating [of "currentCourts ! i" ?am ps]
    by (simp add: smartAllocation_def)
  have l4: "length ps = 4" using h by simp
  show "\<exists>best second third worst.
           mset [best, second, third, worst] = mset ps \<and>
           level second \<le> level best \<and> level third \<le> level second \<and>
           level worst \<le> level third \<and>
           playerIds (smartAllocation rnd allPlayers currentCourts history ! i)
             = [Some (p_id best), Some (p_id worst), Some (p_id second), Some (p_id third)] \<and>
           level best = Max (level ` set ps) \<and> level worst = Min (level ` set ps)"
    unfolding eq by (rule balancedIds_sorted [OF l4])
next
  fix p1 p2 p3 p4 :: Player and c :: "'a Court_scheme"
  assume "level p1 = 10 \<and> level p2 = 8 \<and> level p3 = 6 \<and> level p4 = 4 \<and>
      isActive p1 \<and> isActive p2 \<and> isActive p3 \<and> isActive p4 \<and> status c = Allocating"
  then show "playerIds (smartAllocation rnd [p1, p2, p3, p4] [c] [] ! 0)
          = [Some (p_id p1), Some (p_id p4), Some (p_id p2), Some (p_id p3)]"
    by (intro scenario_levels) simp_all
qed

text \<open>The scenario of the test suite: Best, Second, Third, Worst on one court.\<close>

theorem C2_team_balance_witness:
  "playerIds (smartAllocation rnd0 roster4 court_one [] ! 0)
     = [Some ''p1'', Some ''p4'', Some ''p2'', Some ''p3''] \<and>
   status (court_one ! 0) = Allocating \<and>
   assignments rnd0 roster4 court_one [] (Some (c_id (court_one ! 0))) = Some roster4 \<and>
   (\<exists>best second third worst.
      mset [best, second, third, worst] = mset roster4 \<and>
      level second \<le> level best \<and> level third \<le> level second \<and>
      level worst \<le> level third \<and>
      playerIds (smartAllocation rnd0 roster4 court_one [] ! 0)
        = [Some (p_id best), Some (p_id worst), Some (p_id second), Some (p_id third)] \<and>
      level best = Max (level ` set roster4) \<and> level worst = Min (level ` set roster4))"
proof -
  note t = C2_team_balance [of court_one rnd0 roster4 "[]"]
  have "\<forall>p1 p2 p3 p4 c.
      level p1 = 10 \<and> level p2 = 8 \<and> level p3 = 6 \<and> level p4 = 4 \<and>
      isActive p1 \<and> isActive p2 \<and> isActive p3 \<and> isActive p4 \<and>
      status (c :: Court) = Allocating \<longrightarrow>
        playerIds (smartAllocation rnd0 [p1, p2, p3, p4] [c] [] ! 0)
          = [Some (p_id p1), Some (p_id p4), Some (p_id p2), Some (p_id p3)]"
    using t by (rule conjunct2)
  then have "playerIds (smartAllocation rnd0
                 [createPlayer ''p1'' ''Best'' 10 True, createPlayer ''p2'' ''Second'' 8 True,
                  createPlayer ''p3'' ''Third'' 6 True, createPlayer ''p4'' ''Worst'' 4 True]
                 [createCourt ''c1'' ''Court 1'' Allocating] [] ! 0)
          = [Some ''p1'', Some ''p4'', Some ''p2'', Some ''p3'']"
    by (simp add: createPlayer_def createCourt_def)
  then have scen: "playerIds (smartAllocation rnd0 roster4 court_one [] ! 0)
     = [Some ''p1'', Some ''p4'', Some ''p2'', Some ''p3'']"
    by (simp add: roster4_def court_one_def)
  have i: "0 < length court_one" by code_simp
  have st: "status (court_one ! 0) = Allocating" by code_simp
  have am: "assignments rnd0 roster4 court_one [] (Some (c_id (court_one ! 0))) = Some roster4"
    by code_simp
  have l4: "length roster4 = 4" by code_simp
  from t [THEN conjunct1, rule_format, OF i, of roster4] st am l4
  have gen: "\<exists>best second third worst.
      mset [best, second, third, worst] = mset roster4 \<and>
      level second \<le> level best \<and> level third \<le> level second \<and>
      level worst \<le> level third \<and>
      playerIds (smartAllocation rnd0 roster4 court_one [] ! 0)
        = [Some (p_id best), Some (p_id worst), Some (p_id second), Some (p_id third)] \<and>
      level best = Max (level ` set roster4) \<and> level worst = Min (level ` set roster4)"
    by blast
  from scen st am gen show ?thesis by (intro conjI)
qed

subsection \<open>C3: snake distribution\<close>

text \<open>
  Claim C3. Let \<open>k \<ge> 1\<close> courts be filled, the allocating courts having pairwise
  distinct ids (court ids are unique in the data model). The selection has \<open>4 * k\<close>
  players and is sorted by level descending. The open courts of the output are those of
  the input, in the same order, and the player at sorted position \<open>i\<close> sits in a slot
  of the output open court at index \<open>snake_index k i\<close>, where \<open>snake_index k\<close> runs
  forward through \<open>0, ..., k - 1\<close>, then backward, and so on. Hence the open court
  at index \<open>j < k\<close> holds the sorted positions \<open>j\<close>, \<open>4 * k - 1 - j\<close>,
  \<open>2 * k - 1 - j\<close> and \<open>2 * k + j\<close> in its slots 0, 1, 2 and 3, and the open courts
  from index \<open>k\<close> on are empty. When the roster ids are distinct, the player at
  position \<open>i\<close> sits on no other open court. For \<open>k = 3\<close> the first six positions
  go to the courts 0, 1, 2, 2, 1, 0.
\<close>

theorem C3_snake_law:
  assumes "courtsToFillCount allPlayers currentCourts = k" and "1 \<le> k"
    and "distinct (map c_id (targetCourts currentCourts))"
  shows
   "length (selectedPlayers rnd allPlayers currentCourts history) = 4 * k \<and>
    sorted_wrt (\<lambda>a b. level b \<le> level a) (selectedPlayers rnd allPlayers currentCourts history) \<and>
    map c_id (targetCourts (smartAllocation rnd allPlayers currentCourts history))
      = map c_id (targetCourts currentCourts) \<and>
    (\<forall>i<4 * k.
       Some (p_id (selectedPlayers rnd allPlayers currentCourts history ! i))
         \<in> set (playerIds (targetCourts (smartAllocation rnd allPlayers currentCourts history)
                             ! snake_index k i))) \<and>
    (\<forall>j<k.
       playerIds (targetCourts (smartAllocation rnd allPlayers currentCourts history) ! j)
         = [Some (p_id (selectedPlayers rnd allPlayers currentCourts history ! j)),
            Some (p_id (selectedPlayers rnd allPlayers currentCourts history ! (4 * k - 1 - j))),
            Some (p_id (selectedPlayers rnd allPlayers currentCourts history ! (2 * k - 1 - j))),
            Some (p_id (selectedPlayers rnd allPlayers currentCourts history ! (2 * k + j)))]) \<and>
    (\<forall>j. k \<le> j \<and> j < length (targetCourts currentCourts) \<longrightarrow>
       playerIds (targetCourts (smartAllocation rnd allPlayers currentCourts history) ! j)
         = [None, None, None, None]) \<and>
    (distinct (map p_id allPlayers) \<longrightarrow>
       (\<forall>i<4 * k. \<forall>j<length (targetCourts currentCourts).
          Some (p_id (selectedPlayers rnd allPlayers currentCourts history ! i))
            \<in> set (playerIds (targetCourts (smartAllocation rnd allPlayers currentCourts history) ! j))
          \<longleftrightarrow> j = snake_index k i)) \<and>
    map (snake_index k) [0..<2 * k] = [0..<k] @ rev [0..<k] \<and>
    map (snake_index 3) [0..<6] = [0, 1, 2, 2, 1, 0]"
proof -
  let ?sel = "selectedPlayers rnd allPlayers currentCourts history"
  let ?tcs = "targetCourts currentCourts"
  let ?out = "targetCourts (smartAllocation rnd allPlayers currentCourts history)"
  note d = assms(3)
  have k0: "0 < k" using assms(2) by simp
  have len: "length ?sel = 4 * k" using assms(1) by (simp add: length_selectedPlayers)
  have srt: "sorted_wrt (\<lambda>a b. level b \<le> level a) ?sel"
    using sorted_selected [of rnd allPlayers currentCourts history] by (simp add: sorted_map)
  have ids: "map c_id ?out = map c_id ?tcs"
    by (simp add: targetCourts_out comp_def mergeCourt_frame)
  have slots: "playerIds (?out ! j)
         = [Some (p_id (?sel ! j)), Some (p_id (?sel ! (4 * k - 1 - j))),
            Some (p_id (?sel ! (2 * k - 1 - j))), Some (p_id (?sel ! (2 * k + j)))]"
    if "j < k" for j
    using filled_court_slots [OF d, of j allPlayers rnd history] that assms(1) by simp
  have pos: "i \<in> {snake_index k i, 2 * k - 1 - snake_index k i, 2 * k + snake_index k i,
                   4 * k - 1 - snake_index k i}" if "i < 4 * k" for i
  proof -
    have "i \<in> set (filter (\<lambda>n. snake_index k n = snake_index k i) [0..<4 * k])"
      using that by simp
    then show ?thesis
      using snake_positions_4k [OF snake_index_less [OF k0, of i]] by simp
  qed
  have lands: "Some (p_id (?sel ! i)) \<in> set (playerIds (?out ! snake_index k i))"
    if "i < 4 * k" for i
    using pos [OF that] slots [OF snake_index_less [OF k0, of i]] by auto
  have empty: "playerIds (?out ! j) = [None, None, None, None]"
    if "k \<le> j \<and> j < length ?tcs" for j
    using unfilled_court_slots [OF d, of allPlayers j rnd history] that assms(1) by simp
  have only: "Some (p_id (?sel ! i)) \<in> set (playerIds (?out ! j)) \<longleftrightarrow> j = snake_index k i"
    if dp: "distinct (map p_id allPlayers)" and i: "i < 4 * k" and j: "j < length ?tcs" for i j
  proof
    assume "j = snake_index k i"
    then show "Some (p_id (?sel ! i)) \<in> set (playerIds (?out ! j))"
      using lands [OF i] by simp
  next
    assume seat: "Some (p_id (?sel ! i)) \<in> set (playerIds (?out ! j))"
    have jk: "j < k"
    proof (rule ccontr)
      assume "\<not> j < k"
      then have "playerIds (?out ! j) = [None, None, None, None]"
        using empty [of j] j by simp
      with seat show False by simp
    qed
    have fl: "filter (\<lambda>n. snake_index k n = j) [0..<4 * k]
                = [j, 2 * k - 1 - j, 2 * k + j, 4 * k - 1 - j]"
      using jk by (rule snake_positions_4k)
    from seat slots [OF jk]
    obtain m where m: "m \<in> {j, 2 * k - 1 - j, 2 * k + j, 4 * k - 1 - j}"
      "p_id (?sel ! i) = p_id (?sel ! m)"
      by auto
    from m(1) have "m \<in> set (filter (\<lambda>n. snake_index k n = j) [0..<4 * k])"
      by (simp only: fl) simp
    then have mk: "m < 4 * k" and mj: "snake_index k m = j" by simp_all
    have "distinct (map p_id ?sel)" using dp by (rule selected_ids_distinct)
    moreover have "map p_id ?sel ! i = map p_id ?sel ! m" using m(2) i mk len by simp
    moreover have "i < length (map p_id ?sel)" "m < length (map p_id ?sel)"
      using i mk len by simp_all
    ultimately have "i = m" using nth_eq_iff_index_eq [of "map p_id ?sel" i m] by blast
    with mj show "j = snake_index k i" by simp
  qed
  have trav: "map (snake_index k) [0..<2 * k] = [0..<k] @ rev [0..<k]"
  proof (rule nth_equalityI)
    show "length (map (snake_index k) [0..<2 * k]) = length ([0..<k] @ rev [0..<k])" by simp
  next
    fix i assume "i < length (map (snake_index k) [0..<2 * k])"
    then have i: "i < 2 * k" by simp
    show "map (snake_index k) [0..<2 * k] ! i = ([0..<k] @ rev [0..<k]) ! i"
    proof (cases "i < k")
      case True
      then show ?thesis using i by (simp add: snake_index_def nth_append)
    next
      case False
      then have "rev [0..<k] ! (i - k) = k - Suc (i - k)" using i by (simp add: rev_nth)
      then show ?thesis using False i by (simp add: snake_index_def nth_append)
    qed
  qed
  have inst: "map (snake_index 3) [0..<6] = [0, 1, 2, 2, 1, 0]"
    by code_simp
  have c4: "\<forall>i<4 * k. Some (p_id (?sel ! i)) \<in> set (playerIds (?out ! snake_index k i))"
    using lands by blast
  have c5: "\<forall>j<k. playerIds (?out ! j)
         = [Some (p_id (?sel ! j)), Some (p_id (?sel ! (4 * k - 1 - j))),
            Some (p_id (?sel ! (2 * k - 1 - j))), Some (p_id (?sel ! (2 * k + j)))]"
    using slots by blast
  have c6: "\<forall>j. k \<le> j \<and> j < length ?tcs \<longrightarrow> playerIds (?out ! j) = [None, None, None, None]"
    using empty by blast
  have c7: "distinct (map p_id allPlayers) \<longrightarrow>
       (\<forall>i<4 * k. \<forall>j<length ?tcs.
          Some (p_id (?sel ! i)) \<in> set (playerIds (?out ! j)) \<longleftrightarrow> j = snake_index k i)"
    using only by blast
  from len srt ids c4 c5 c6 c7 trav inst show ?thesis by (intro conjI)
qed

text \<open>
  Twelve players on three courts. The players at the sorted positions 0, ..., 5 sit on
  the output courts 0, 1, 2, 2, 1, 0 and on no other court.
\<close>

theorem C3_snake_law_witness:
  "courtsToFillCount roster12 courts_three = 3 \<and>
   distinct (map c_id (targetCourts courts_three)) \<and>
   distinct (map p_id roster12) \<and>
   map p_id (selectedPlayers rnd0 roster12 courts_three [])
     = [''q2'', ''q8'', ''q6'', ''q4'', ''q10'', ''q1'',
        ''q12'', ''q7'', ''q11'', ''q3'', ''q9'', ''q5''] \<and>
   targetCourts (smartAllocation rnd0 roster12 courts_three [])
     = smartAllocation rnd0 roster12 courts_three [] \<and>
   map playerIds (smartAllocation rnd0 roster12 courts_three [])
     = [[Some ''q2'', Some ''q5'', Some ''q1'', Some ''q12''],
        [Some ''q8'', Some ''q9'', Some ''q10'', Some ''q7''],
        [Some ''q6'', Some ''q3'', Some ''q4'', Some ''q11'']] \<and>
   map (\<lambda>i. filter (\<lambda>j. Some (p_id (selectedPlayers rnd0 roster12 courts_three [] ! i))
                        \<in> set (playerIds (smartAllocation rnd0 roster12 courts_three [] ! j)))
                   [0..<3])
       [0..<6]
     = [[0], [1], [2], [2], [1], [0]] \<and>
   playerIds (targetCourts (smartAllocation rnd0 roster12 courts_three []) ! 2)
     = [Some (p_id (selectedPlayers rnd0 roster12 courts_three [] ! 2)),
        Some (p_id (selectedPlayers rnd0 roster12 courts_three [] ! 9)),
        Some (p_id (selectedPlayers rnd0 roster12 courts_three [] ! 3)),
        Some (p_id (selectedPlayers rnd0 roster12 courts_three [] ! 8))] \<and>
   Some (p_id (selectedPlayers rnd0 roster12 courts_three [] ! 4))
     \<in> set (playerIds (targetCourts (smartAllocation rnd0 roster12 courts_three []) ! 1)) \<and>
   Some (p_id (selectedPlayers rnd0 roster12 courts_three [] ! 4))
     \<notin> set (playerIds (targetCourts (smartAllocation rnd0 roster12 courts_three []) ! 2))"
proof -
  let ?sel = "selectedPlayers rnd0 roster12 courts_three []"
  let ?out = "smartAllocation rnd0 roster12 courts_three []"
  have k: "courtsToFillCount roster12 courts_three = 3" by code_simp
  have k1: "(1::nat) \<le> 3" by simp
  have d: "distinct (map c_id (targetCourts courts_three))" by code_simp
  have dp: "distinct (map p_id roster12)" by code_simp
  have sel: "map p_id ?sel
     = [''q2'', ''q8'', ''q6'', ''q4'', ''q10'', ''q1'',
        ''q12'', ''q7'', ''q11'', ''q3'', ''q9'', ''q5'']" by code_simp
  have allopen: "targetCourts ?out = ?out" by code_simp
  have outv: "map playerIds ?out
     = [[Some ''q2'', Some ''q5'', Some ''q1'', Some ''q12''],
        [Some ''q8'', Some ''q9'', Some ''q10'', Some ''q7''],
        [Some ''q6'', Some ''q3'', Some ''q4'', Some ''q11'']]" by code_simp
  have order: "map (\<lambda>i. filter (\<lambda>j. Some (p_id (?sel ! i)) \<in> set (playerIds (?out ! j))) [0..<3])
       [0..<6]
     = [[0], [1], [2], [2], [1], [0]]" by code_simp
  have l3: "length (targetCourts courts_three) = 3" by code_simp
  have s4: "snake_index 3 4 = 1" by code_simp
  note t = C3_snake_law [OF k k1 d, of rnd0 "[]"]
  have j2: "(2::nat) < 3" and i4: "(4::nat) < 4 * 3" by simp_all
  have c2: "playerIds (targetCourts ?out ! 2)
     = [Some (p_id (?sel ! 2)), Some (p_id (?sel ! 9)),
        Some (p_id (?sel ! 3)), Some (p_id (?sel ! 8))]"
    using t [THEN conjunct2, THEN conjunct2, THEN conjunct2, THEN conjunct2, THEN conjunct1,
             rule_format, OF j2]
    by simp
  have l1: "Some (p_id (?sel ! 4)) \<in> set (playerIds (targetCourts ?out ! 1))"
    using t [THEN conjunct2, THEN conjunct2, THEN conjunct2, THEN conjunct1, rule_format, OF i4]
    by (simp only: s4)
  have "(Some (p_id (?sel ! 4)) \<in> set (playerIds (targetCourts ?out ! 2))) = (2 = snake_index 3 4)"
    using t [THEN conjunct2, THEN conjunct2, THEN conjunct2, THEN conjunct2, THEN conjunct2,
             THEN conjunct2, THEN conjunct1, rule_format, OF dp i4, of 2]
    by (simp only: l3 j2)
  then have n2: "Some (p_id (?sel ! 4)) \<notin> set (playerIds (targetCourts ?out ! 2))"
    by (simp add: s4)
  from k d dp sel allopen outv order c2 l1 n2 show ?thesis by (intro conjI)
qed

subsection \<open>C4: priority\<close>

text \<open>
  Claim C4. The selection queue is a permutation of the statistics of the eligible
  players, ordered by \<open>playedCount\<close> ascending, then \<open>restRounds\<close> descending, then
  the random draw descending (\<open>prio_le\<close>). Court ids and player ids are unique in the
  data model. Then the ids seated on the open courts of the output are the ids of the
  first \<open>courtsToFillCount * 4\<close> entries of the queue, and an eligible player is
  seated on an open court of the output exactly when its entry is among these. Hence
  for two eligible players with \<open>playedCount a < playedCount b\<close>: whenever \<open>b\<close> is
  seated on a court of the output, so is \<open>a\<close>; when only one of them is seated, it is
  \<open>a\<close>.
\<close>

theorem C4_priority:
  assumes "distinct (map c_id (targetCourts currentCourts))"
    and "distinct (map p_id allPlayers)"
  shows
  "sorted_wrt prio_le (sortedStats rnd allPlayers currentCourts history) \<and>
   mset (sortedStats rnd allPlayers currentCourts history)
     = mset (playerStats rnd allPlayers currentCourts history) \<and>
   map player (playerStats rnd allPlayers currentCourts history)
     = availablePlayers allPlayers currentCourts \<and>
   mset (seatedIds (targetCourts (smartAllocation rnd allPlayers currentCourts history)))
     = mset (map (\<lambda>s. p_id (player s))
               (take (courtsToFillCount allPlayers currentCourts * 4)
                     (sortedStats rnd allPlayers currentCourts history))) \<and>
   (\<forall>s\<in>set (playerStats rnd allPlayers currentCourts history).
      p_id (player s)
        \<in> set (seatedIds (targetCourts (smartAllocation rnd allPlayers currentCourts history)))
      \<longleftrightarrow> s \<in> set (take (courtsToFillCount allPlayers currentCourts * 4)
                          (sortedStats rnd allPlayers currentCourts history))) \<and>
   (\<forall>a\<in>set (playerStats rnd allPlayers currentCourts history).
      \<forall>b\<in>set (playerStats rnd allPlayers currentCourts history).
        playedCount a < playedCount b \<and>
        p_id (player b)
          \<in> set (seatedIds (targetCourts (smartAllocation rnd allPlayers currentCourts history)))
        \<longrightarrow> p_id (player a)
          \<in> set (seatedIds (targetCourts (smartAllocation rnd allPlayers currentCourts history))))"
proof -
  let ?stats = "playerStats rnd allPlayers currentCourts history"
  let ?queue = "sortedStats rnd allPlayers currentCourts history"
  let ?sel = "selectedStats rnd allPlayers currentCourts history"
  let ?seated = "seatedIds (targetCourts (smartAllocation rnd allPlayers currentCourts history))"
  let ?n = "courtsToFillCount allPlayers currentCourts * 4"
  have sel: "?sel = take ?n ?queue"
    by (simp add: selectedStats_def playersToTakeCount_def)
  have one: "sorted_wrt prio_le ?queue"
    by (simp add: sortedStats_def sorted_sort_priority)
  have two: "mset ?queue = mset ?stats"
    by (simp add: sortedStats_def mset_sort_cmp)
  have three: "map player ?stats = availablePlayers allPlayers currentCourts"
    by (rule map_player_playerStats)
  have four: "mset ?seated = mset (map (\<lambda>s. p_id (player s)) (take ?n ?queue))"
    using open_seated_mset [OF assms(1), of rnd allPlayers history]
    by (simp add: mset_selectedPlayers multiset.map_comp comp_def sel)
  have five: "\<forall>s\<in>set ?stats. p_id (player s) \<in> set ?seated \<longleftrightarrow> s \<in> set (take ?n ?queue)"
    using seated_iff_selected [OF assms, of _ rnd history] by (simp add: sel)
  have six: "\<forall>a\<in>set ?stats. \<forall>b\<in>set ?stats.
      playedCount a < playedCount b \<and> p_id (player b) \<in> set ?seated
        \<longrightarrow> p_id (player a) \<in> set ?seated"
  proof (intro ballI impI)
    fix a b assume a: "a \<in> set ?stats" and b: "b \<in> set ?stats"
      and h: "playedCount a < playedCount b \<and> p_id (player b) \<in> set ?seated"
    from h b five have "b \<in> set (take ?n (sort_cmp cmp_priority ?stats))"
      by (simp add: sortedStats_def)
    with a h have "a \<in> set (take ?n (sort_cmp cmp_priority ?stats))"
      using priority_before [of a ?stats b ?n] by simp
    with a five show "p_id (player a) \<in> set ?seated"
      by (simp add: sortedStats_def)
  qed
  from one two three four five six show ?thesis by (intro conjI)
qed

text \<open>
  Five eligible players, one court: \<open>p5\<close> never played, \<open>p2\<close> played once and
  \<open>p1\<close> twice. \<open>p2\<close> is seated on the output court, so \<open>p5\<close> is; \<open>p1\<close> is
  left out.
\<close>

theorem C4_priority_witness:
  "distinct (map c_id (targetCourts court_one)) \<and>
   distinct (map p_id roster5) \<and>
   map (\<lambda>s. (p_id (player s), playedCount s)) (playerStats rnd0 roster5 court_one history3)
     = [(''p1'', 2), (''p2'', 1), (''p3'', 1), (''p4'', 1), (''p5'', 0)] \<and>
   seatedIds (targetCourts (smartAllocation rnd0 roster5 court_one history3))
     = [''p5'', ''p2'', ''p4'', ''p3''] \<and>
   playedCount (playerStats rnd0 roster5 court_one history3 ! 4)
     < playedCount (playerStats rnd0 roster5 court_one history3 ! 1) \<and>
   p_id (player (playerStats rnd0 roster5 court_one history3 ! 1))
     \<in> set (seatedIds (targetCourts (smartAllocation rnd0 roster5 court_one history3))) \<and>
   p_id (player (playerStats rnd0 roster5 court_one history3 ! 4))
     \<in> set (seatedIds (targetCourts (smartAllocation rnd0 roster5 court_one history3))) \<and>
   p_id (player (playerStats rnd0 roster5 court_one history3 ! 0))
     \<notin> set (seatedIds (targetCourts (smartAllocation rnd0 roster5 court_one history3)))"
proof -
  let ?ps = "playerStats rnd0 roster5 court_one history3"
  let ?seated = "seatedIds (targetCourts (smartAllocation rnd0 roster5 court_one history3))"
  have d1: "distinct (map c_id (targetCourts court_one))" by code_simp
  have d2: "distinct (map p_id roster5)" by code_simp
  have tab: "map (\<lambda>s. (p_id (player s), playedCount s)) ?ps
     = [(''p1'', 2), (''p2'', 1), (''p3'', 1), (''p4'', 1), (''p5'', 0)]" by code_simp
  have seats: "?seated = [''p5'', ''p2'', ''p4'', ''p3'']" by code_simp
  have len: "length ?ps = 5" by code_simp
  have a: "?ps ! 4 \<in> set ?ps" and b: "?ps ! 1 \<in> set ?ps" using len by simp_all
  have lt: "playedCount (?ps ! 4) < playedCount (?ps ! 1)" by code_simp
  have bseat: "p_id (player (?ps ! 1)) \<in> set ?seated" by code_simp
  have out: "p_id (player (?ps ! 0)) \<notin> set ?seated" by code_simp
  have "\<forall>a\<in>set ?ps. \<forall>b\<in>set ?ps.
          playedCount a < playedCount b \<and> p_id (player b) \<in> set ?seated
            \<longrightarrow> p_id (player a) \<in> set ?seated"
    using C4_priority [OF d1 d2, of rnd0 history3] by blast
  with a b lt bseat have "p_id (player (?ps ! 4)) \<in> set ?seated" by blast
  with d1 d2 tab seats lt bseat out show ?thesis by (intro conjI)
qed

subsection \<open>C5: statistics\<close>

text \<open>
  Claim C5. For the \<open>i\<close>-th eligible player, \<open>playedCount\<close> is the number of matches,
  over all rounds, whose list of names contains the player's name. When that number is
  0, \<open>restRounds\<close> is the sentinel 999; otherwise it is the number of rounds minus the
  index \<open>j\<close> of the last round that has a match with the name. In the selection queue
  (a permutation of these statistics) every player who never played stands before every
  player who has played.
\<close>

theorem C5_statistics:
  "(\<forall>i<length (availablePlayers allPlayers currentCourts).
      player (playerStats rnd allPlayers currentCourts history ! i)
        = availablePlayers allPlayers currentCourts ! i \<and>
      playedCount (playerStats rnd allPlayers currentCourts history ! i)
        = int (matchesWith (p_name (availablePlayers allPlayers currentCourts ! i)) history) \<and>
      (matchesWith (p_name (availablePlayers allPlayers currentCourts ! i)) history = 0 \<longrightarrow>
         restRounds (playerStats rnd allPlayers currentCourts history ! i) = 999) \<and>
      (0 < matchesWith (p_name (availablePlayers allPlayers currentCourts ! i)) history \<longrightarrow>
         (\<exists>j<length history.
            roundHasPlayer (p_name (availablePlayers allPlayers currentCourts ! i)) (history ! j) \<and>
            (\<forall>j'. j < j' \<and> j' < length history \<longrightarrow>
               \<not> roundHasPlayer (p_name (availablePlayers allPlayers currentCourts ! i))
                    (history ! j')) \<and>
            restRounds (playerStats rnd allPlayers currentCourts history ! i)
              = int (length history) - int j))) \<and>
   mset (sortedStats rnd allPlayers currentCourts history)
     = mset (playerStats rnd allPlayers currentCourts history) \<and>
   (\<forall>i<length (sortedStats rnd allPlayers currentCourts history).
      \<forall>j<length (sortedStats rnd allPlayers currentCourts history).
        playedCount (sortedStats rnd allPlayers currentCourts history ! i) = 0 \<and>
        0 < playedCount (sortedStats rnd allPlayers currentCourts history ! j)
          \<longrightarrow> i < j)"
proof (intro conjI allI impI)
  fix i assume i: "i < length (availablePlayers allPlayers currentCourts)"
  let ?p = "availablePlayers allPlayers currentCourts ! i"
  let ?s = "playerStats rnd allPlayers currentCourts history ! i"
  have s: "?s = playerStat history (rnd i) ?p" using i by (rule nth_playerStats)
  show "player ?s = ?p" by (simp add: s player_playerStat)
  show "playedCount ?s = int (matchesWith (p_name ?p) history)"
    by (simp add: s playedCount_playerStat)
  show "restRounds ?s = 999" if "matchesWith (p_name ?p) history = 0"
    using that by (simp add: s restRounds_never)
  show "\<exists>j<length history.
            roundHasPlayer (p_name ?p) (history ! j) \<and>
            (\<forall>j'. j < j' \<and> j' < length history \<longrightarrow> \<not> roundHasPlayer (p_name ?p) (history ! j')) \<and>
            restRounds ?s = int (length history) - int j"
    if "0 < matchesWith (p_name ?p) history"
    using restRounds_played [OF that, of "rnd i"] by (simp add: s)
next
  show "mset (sortedStats rnd allPlayers currentCourts history)
     = mset (playerStats rnd allPlayers currentCourts history)"
    by (simp add: sortedStats_def mset_sort_cmp)
next
  fix i j
  assume "i < length (sortedStats rnd allPlayers currentCourts history)"
    "j < length (sortedStats rnd allPlayers currentCourts history)"
    "playedCount (sortedStats rnd allPlayers currentCourts history ! i) = 0 \<and>
        0 < playedCount (sortedStats rnd allPlayers currentCourts history ! j)"
  then show "i < j"
    unfolding sortedStats_def
    using never_played_first [of i "playerStats rnd allPlayers currentCourts history" j] by simp
qed

text \<open>
  With three rounds: \<open>P1\<close> has played twice, last in round index 1, and has rested
  \<open>3 - 1 = 2\<close> rounds; \<open>P5\<close> has never played and gets the sentinel.
\<close>

theorem C5_statistics_witness:
  "matchesWith ''P1'' history3 = 2 \<and>
   playedCount (playerStats rnd0 roster5 court_one history3 ! 0) = 2 \<and>
   restRounds (playerStats rnd0 roster5 court_one history3 ! 0) = 2 \<and>
   (\<exists>j<length history3.
      roundHasPlayer ''P1'' (history3 ! j) \<and>
      restRounds (playerStats rnd0 roster5 court_one history3 ! 0)
        = int (length history3) - int j) \<and>
   matchesWith ''P5'' history3 = 0 \<and>
   restRounds (playerStats rnd0 roster5 court_one history3 ! 4) = 999 \<and>
   playedCount (sortedStats rnd0 roster5 court_one history3 ! 0) = 0 \<and>
   0 < playedCount (sortedStats rnd0 roster5 court_one history3 ! 4)"
proof -
  have len: "length (availablePlayers roster5 court_one) = 5" by code_simp
  have n0: "p_name (availablePlayers roster5 court_one ! 0) = ''P1''" by code_simp
  have n4: "p_name (availablePlayers roster5 court_one ! 4) = ''P5''" by code_simp
  have m1: "matchesWith ''P1'' history3 = 2" by code_simp
  have m5: "matchesWith ''P5'' history3 = 0" by code_simp
  have r0: "restRounds (playerStats rnd0 roster5 court_one history3 ! 0) = 2" by code_simp
  note t = C5_statistics [of roster5 court_one rnd0 history3, THEN conjunct1, rule_format]
  have i0: "0 < length (availablePlayers roster5 court_one)"
    and i4: "4 < length (availablePlayers roster5 court_one)" using len by simp_all
  have pc: "playedCount (playerStats rnd0 roster5 court_one history3 ! 0) = 2"
    using t [OF i0] by (simp add: n0 m1)
  have ex: "\<exists>j<length history3.
      roundHasPlayer ''P1'' (history3 ! j) \<and>
      restRounds (playerStats rnd0 roster5 court_one history3 ! 0)
        = int (length history3) - int j"
    using t [OF i0] by (simp add: n0 m1) blast
  have never: "restRounds (playerStats rnd0 roster5 court_one history3 ! 4) = 999"
    using t [OF i4] by (simp add: n4 m5)
  have q0: "playedCount (sortedStats rnd0 roster5 court_one history3 ! 0) = 0" by code_simp
  have q4: "0 < playedCount (sortedStats rnd0 roster5 court_one history3 ! 4)" by code_simp
  from m1 pc r0 ex m5 never q0 q4 show ?thesis by (intro conjI)
qed

subsection \<open>C6: frame\<close>

text \<open>
  Claim C6. The output has the length and the order of the input court list: position
  \<open>i\<close> of the output is built from position \<open>i\<close> of the input. A court that is
  \<open>Playing\<close> is returned as it is; every other court keeps its id, its name, its type
  and every further field (the \<open>more\<close> part), so only \<open>status\<close> and \<open>playerIds\<close>
  can differ.
\<close>

theorem C6_frame:
  "length (smartAllocation rnd allPlayers currentCourts history) = length currentCourts \<and>
   (\<forall>i<length currentCourts.
      (status (currentCourts ! i) = Playing \<longrightarrow>
         smartAllocation rnd allPlayers currentCourts history ! i = currentCourts ! i) \<and>
      c_id (smartAllocation rnd allPlayers currentCourts history ! i) = c_id (currentCourts ! i) \<and>
      c_name (smartAllocation rnd allPlayers currentCourts history ! i)
        = c_name (currentCourts ! i) \<and>
      c_type (smartAllocation rnd allPlayers currentCourts history ! i)
        = c_type (currentCourts ! i) \<and>
      Court.more (smartAllocation rnd allPlayers currentCourts history ! i)
        = Court.more (currentCourts ! i))"
  by (simp add: smartAllocation_def mergeCourt_playing mergeCourt_frame)

theorem C6_frame_witness:
  "length (smartAllocation rnd0 roster8 courts_mixed []) = 2 \<and>
   status (courts_mixed ! 0) = Playing \<and>
   smartAllocation rnd0 roster8 courts_mixed [] ! 0 = courts_mixed ! 0 \<and>
   status (courts_mixed ! 1) = Allocating \<and>
   c_id (smartAllocation rnd0 roster8 courts_mixed [] ! 1) = ''c2'' \<and>
   c_name (smartAllocation rnd0 roster8 courts_mixed [] ! 1) = ''Court 2''"
  using C6_frame [of rnd0 roster8 courts_mixed "[]"]
  by (simp add: courts_mixed_def createCourt_def)

subsection \<open>C7: no player twice\<close>

text \<open>
  Claim C7. Let the roster ids be distinct and no id occupy more than one slot among
  the input playing courts; in the data model, moreover, court ids are unique and a
  player id is a non-empty string. Then no player id occupies more than one slot across
  the whole output.
\<close>

theorem C7_no_duplication:
  assumes "distinct (map p_id allPlayers)"
    and "distinct (seatedIds (playingCourts currentCourts))"
    and "distinct (map c_id (targetCourts currentCourts))"
    and "\<forall>p\<in>set allPlayers. p_id p \<noteq> []"
  shows "distinct (seatedIds (smartAllocation rnd allPlayers currentCourts history))"
proof -
  let ?A = "concat (map occupiedIds (filter (\<lambda>c. status c = Playing) currentCourts))"
  let ?B = "map p_id (selectedPlayers rnd allPlayers currentCourts history)"
  have dA: "distinct ?A"
    using assms(2) by (simp add: seatedIds_def playingCourts_def)
  have disj: "set ?A \<inter> set ?B = {}"
  proof (rule ccontr)
    assume "set ?A \<inter> set ?B \<noteq> {}"
    then obtain x where xa: "x \<in> set ?A" and xb: "x \<in> set ?B" by blast
    from xa obtain c where c: "c \<in> set currentCourts" "status c = Playing"
      "Some x \<in> set (playerIds c)"
      by (auto simp: occupiedIds_mem)
    from xb obtain p where p: "p \<in> set (selectedPlayers rnd allPlayers currentCourts history)"
      "p_id p = x" by auto
    then have pa: "p \<in> set allPlayers" "x \<notin> playingPlayerIds currentCourts"
      using selected_subset_available [of rnd allPlayers currentCourts history]
      by (auto simp: available_mem)
    with assms(4) p(2) have "x \<noteq> []" by blast
    with c have "x \<in> playingPlayerIds currentCourts"
      by (auto simp: playingPlayerIds_eq)
    with pa(2) show False by simp
  qed
  have "distinct (?A @ ?B)"
    using dA selected_ids_distinct [OF assms(1)] disj by simp
  then have "distinct (concat (map occupiedIds
                 (smartAllocation rnd allPlayers currentCourts history)))"
    using out_ids_mset [OF assms(3), of rnd allPlayers history] mset_eq_imp_distinct_iff by blast
  then show ?thesis by (simp add: seatedIds_def)
qed

text \<open>Four players locked on a playing court, the other four placed on the open court.\<close>

theorem C7_no_duplication_witness:
  "distinct (map p_id roster8) \<and>
   distinct (seatedIds (playingCourts courts_mixed)) \<and>
   distinct (map c_id (targetCourts courts_mixed)) \<and>
   [] \<notin> set (map p_id roster8) \<and>
   seatedIds (smartAllocation rnd0 roster8 courts_mixed [])
     = [''p1'', ''p2'', ''p3'', ''p4'', ''p5'', ''p8'', ''p6'', ''p7''] \<and>
   distinct (seatedIds (smartAllocation rnd0 roster8 courts_mixed []))"
proof -
  have h1: "distinct (map p_id roster8)" by code_simp
  have h2: "distinct (seatedIds (playingCourts courts_mixed))" by code_simp
  have h3: "distinct (map c_id (targetCourts courts_mixed))" by code_simp
  have h4': "[] \<notin> set (map p_id roster8)" by code_simp
  then have h4: "\<forall>p\<in>set roster8. p_id p \<noteq> []" by (metis imageI set_map)
  have v: "seatedIds (smartAllocation rnd0 roster8 courts_mixed [])
     = [''p1'', ''p2'', ''p3'', ''p4'', ''p5'', ''p8'', ''p6'', ''p7'']" by code_simp
  from h1 h2 h3 h4' v C7_no_duplication [OF h1 h2 h3 h4, of rnd0 "[]"]
  show ?thesis by (intro conjI)
qed

subsection \<open>C8: eligibility\<close>

text \<open>
  Claim C8. On a roster of the data model (player ids unique and non-empty), an id in a
  slot of an output allocating court is never the id of an inactive player and is seated
  on no input playing court: it is the id of a roster player who is active and not in
  the locked set.
\<close>

theorem C8_eligibility:
  assumes "distinct (map p_id allPlayers)"
    and "\<forall>p\<in>set allPlayers. p_id p \<noteq> []"
  shows
  "\<forall>c'\<in>set (smartAllocation rnd allPlayers currentCourts history).
     status c' = Allocating \<longrightarrow>
       (\<forall>pid. Some pid \<in> set (playerIds c') \<longrightarrow>
          (\<forall>p\<in>set allPlayers. p_id p = pid \<longrightarrow> isActive p) \<and>
          (\<forall>c\<in>set currentCourts. status c = Playing \<longrightarrow> Some pid \<notin> set (playerIds c)) \<and>
          (\<exists>p\<in>set allPlayers. p_id p = pid \<and> isActive p \<and>
                               pid \<notin> playingPlayerIds currentCourts))"
proof (intro ballI impI allI)
  fix c' pid
  assume c': "c' \<in> set (smartAllocation rnd allPlayers currentCourts history)"
    and st: "status c' = Allocating" and pid: "Some pid \<in> set (playerIds c')"
  let ?am = "assignments rnd allPlayers currentCourts history"
  from c' obtain c where c: "c \<in> set currentCourts" "c' = mergeCourt ?am c"
    by (auto simp: smartAllocation_def)
  with st have sc: "status c = Allocating" by (simp add: mergeCourt_status)
  from out_ids_selected [OF c(1) sc] pid c(2)
  obtain p where p: "p \<in> set (selectedPlayers rnd allPlayers currentCourts history)" "p_id p = pid"
    by blast
  then have pa: "p \<in> set allPlayers" "isActive p" "pid \<notin> playingPlayerIds currentCourts"
    using selected_subset_available [of rnd allPlayers currentCourts history]
    by (auto simp: available_mem)
  have ne: "pid \<noteq> []" using assms(2) pa(1) p(2) by blast
  have one: "\<forall>q\<in>set allPlayers. p_id q = pid \<longrightarrow> isActive q"
  proof (intro impI ballI)
    fix q assume q: "q \<in> set allPlayers" "p_id q = pid"
    then have "q = p"
      using assms(1) pa(1) p(2) by (metis distinct_map inj_onD)
    with pa(2) show "isActive q" by simp
  qed
  have two: "\<forall>c\<in>set currentCourts. status c = Playing \<longrightarrow> Some pid \<notin> set (playerIds c)"
    using pa(3) ne by (auto simp: playingPlayerIds_eq)
  have three: "\<exists>p\<in>set allPlayers. p_id p = pid \<and> isActive p \<and> pid \<notin> playingPlayerIds currentCourts"
    using pa p(2) by blast
  from one two three
  show "(\<forall>p\<in>set allPlayers. p_id p = pid \<longrightarrow> isActive p) \<and>
          (\<forall>c\<in>set currentCourts. status c = Playing \<longrightarrow> Some pid \<notin> set (playerIds c)) \<and>
          (\<exists>p\<in>set allPlayers. p_id p = pid \<and> isActive p \<and>
                               pid \<notin> playingPlayerIds currentCourts)"
    by blast
qed

text \<open>
  \<open>p1\<close>, ..., \<open>p4\<close> are on the playing court and \<open>p5\<close> is inactive: the open
  court receives \<open>p9\<close>, \<open>p8\<close>, \<open>p6\<close> and \<open>p7\<close>.
\<close>

theorem C8_eligibility_witness:
  "distinct (map p_id roster9) \<and>
   [] \<notin> set (map p_id roster9) \<and>
   map isActive roster9 = [True, True, True, True, False, True, True, True, True] \<and>
   map status courts_mixed = [Playing, Allocating] \<and>
   playerIds (courts_mixed ! 0) = [Some ''p1'', Some ''p2'', Some ''p3'', Some ''p4''] \<and>
   status (smartAllocation rnd0 roster9 courts_mixed [] ! 1) = Allocating \<and>
   playerIds (smartAllocation rnd0 roster9 courts_mixed [] ! 1)
     = [Some ''p9'', Some ''p8'', Some ''p6'', Some ''p7''] \<and>
   p_id (roster9 ! 8) = ''p9'' \<and>
   isActive (roster9 ! 8) \<and>
   Some ''p9'' \<notin> set (playerIds (courts_mixed ! 0)) \<and>
   ''p9'' \<notin> playingPlayerIds courts_mixed"
proof -
  let ?out = "smartAllocation rnd0 roster9 courts_mixed []"
  have d: "distinct (map p_id roster9)" by code_simp
  have ne': "[] \<notin> set (map p_id roster9)" by code_simp
  then have ne: "\<forall>p\<in>set roster9. p_id p \<noteq> []" by (metis imageI set_map)
  have act: "map isActive roster9 = [True, True, True, True, False, True, True, True, True]"
    by code_simp
  have sts: "map status courts_mixed = [Playing, Allocating]" by code_simp
  have locked: "playerIds (courts_mixed ! 0) = [Some ''p1'', Some ''p2'', Some ''p3'', Some ''p4'']"
    by code_simp
  have len: "length ?out = 2" by code_simp
  then have mem: "?out ! 1 \<in> set ?out" by simp
  have st: "status (?out ! 1) = Allocating" by code_simp
  have slots: "playerIds (?out ! 1) = [Some ''p9'', Some ''p8'', Some ''p6'', Some ''p7'']"
    by code_simp
  then have pid: "Some ''p9'' \<in> set (playerIds (?out ! 1))" by simp
  have c0: "courts_mixed ! 0 \<in> set courts_mixed" by code_simp
  have s0: "status (courts_mixed ! 0) = Playing" by code_simp
  have p8: "roster9 ! 8 \<in> set roster9" by code_simp
  have id8: "p_id (roster9 ! 8) = ''p9''" by code_simp
  from C8_eligibility [OF d ne, of rnd0 courts_mixed "[]"] mem st pid
  have all: "(\<forall>p\<in>set roster9. p_id p = ''p9'' \<longrightarrow> isActive p) \<and>
        (\<forall>c\<in>set courts_mixed. status c = Playing \<longrightarrow> Some ''p9'' \<notin> set (playerIds c)) \<and>
        (\<exists>p\<in>set roster9. p_id p = ''p9'' \<and> isActive p \<and> ''p9'' \<notin> playingPlayerIds courts_mixed)"
    by blast
  from all p8 id8 have a: "isActive (roster9 ! 8)" by blast
  from all c0 s0 have b: "Some ''p9'' \<notin> set (playerIds (courts_mixed ! 0))" by blast
  from all have c: "''p9'' \<notin> playingPlayerIds courts_mixed" by blast
  from d ne' act sts locked st slots id8 a b c show ?thesis by (intro conjI)
qed

subsection \<open>C9: grouping of matches into rounds\<close>

text \<open>
  Claim C9, as amended. When the court is found and a match is recorded at time
  \<open>timestamp\<close>: the match is appended to the most recent round exactly when there is a
  most recent round, \<open>timestamp\<close> minus that round's timestamp is below 15 minutes, and
  that round has no match with the same court name and the same comma-joined player
  names. In the window but with such a match present, the rounds stay as they are.
  Otherwise (no round yet, or outside the window) a new round is appended, with
  \<open>roundNumber\<close> the previous number of rounds plus one, the current timestamp, and the
  new match as its only match.
\<close>

theorem C9_round_grouping:
  assumes "find (\<lambda>c. c_id c = courtId) courts = Some court"
  shows
   "(rounds \<noteq> [] \<longrightarrow>
       (recordMatchStart players courts courtId timestamp newId rounds
          = joinLastRound rounds (newMatchFor players court timestamp))
        = (withinWindow timestamp rounds \<and>
           \<not> isDuplicate (last rounds) (newMatchFor players court timestamp)
                (playerNames (newMatchFor players court timestamp)))) \<and>
    (withinWindow timestamp rounds \<and>
     isDuplicate (last rounds) (newMatchFor players court timestamp)
       (playerNames (newMatchFor players court timestamp)) \<longrightarrow>
       recordMatchStart players courts courtId timestamp newId rounds = rounds) \<and>
    (\<not> withinWindow timestamp rounds \<longrightarrow>
       recordMatchStart players courts courtId timestamp newId rounds
         = rounds @ [\<lparr>r_id = newId, roundNumber = int (length rounds) + 1,
                      r_timestamp = timestamp,
                      matches = [newMatchFor players court timestamp]\<rparr>])"
  using joinLastRound_neq [of rounds "newMatchFor players court timestamp"]
    joinLastRound_neq_new [of rounds "newMatchFor players court timestamp"
       "newMatchFor players court timestamp" newId timestamp]
  by (auto simp: recordMatchStart_cases [OF assms] startNewRound_def)

text \<open>
  The second court starts within the window of the only round and joins it; one started
  later than 15 minutes after it opens round 2.
\<close>

theorem C9_round_grouping_witness:
  "find (\<lambda>c. c_id c = ''c2'') courts_full = Some (courts_full ! 1) \<and>
   withinWindow 2000 [round1] \<and>
   recordMatchStart roster8 courts_full ''c2'' 2000 ''r2'' [round1]
     = joinLastRound [round1] (newMatchFor roster8 (courts_full ! 1) 2000) \<and>
   \<not> withinWindow 901000 [round1] \<and>
   recordMatchStart roster8 courts_full ''c2'' 901000 ''r2'' [round1]
     = [round1, \<lparr>r_id = ''r2'', roundNumber = 2, r_timestamp = 901000,
                  matches = [newMatchFor roster8 (courts_full ! 1) 901000]\<rparr>] \<and>
   find (\<lambda>c. c_id c = ''c1'') courts_full = Some (courts_full ! 0) \<and>
   isDuplicate (last [round1]) (newMatchFor roster8 (courts_full ! 0) 2000)
     (playerNames (newMatchFor roster8 (courts_full ! 0) 2000)) \<and>
   recordMatchStart roster8 courts_full ''c1'' 2000 ''r2'' [round1] = [round1]"
proof -
  have f: "find (\<lambda>c. c_id c = ''c2'') courts_full = Some (courts_full ! 1)" by code_simp
  have w: "withinWindow 2000 [round1]" by code_simp
  have nw: "\<not> withinWindow 901000 [round1]" by code_simp
  have nd: "\<not> isDuplicate (last [round1]) (newMatchFor roster8 (courts_full ! 1) 2000)
                (playerNames (newMatchFor roster8 (courts_full ! 1) 2000))" by code_simp
  from C9_round_grouping [OF f, where rounds = "[round1]" and players = roster8
      and timestamp = 2000 and newId = "''r2''"] w nd
  have a: "recordMatchStart roster8 courts_full ''c2'' 2000 ''r2'' [round1]
     = joinLastRound [round1] (newMatchFor roster8 (courts_full ! 1) 2000)" by simp
  from C9_round_grouping [OF f, where rounds = "[round1]" and players = roster8
      and timestamp = 901000 and newId = "''r2''"] nw
  have b: "recordMatchStart roster8 courts_full ''c2'' 901000 ''r2'' [round1]
     = [round1, \<lparr>r_id = ''r2'', roundNumber = 2, r_timestamp = 901000,
                  matches = [newMatchFor roster8 (courts_full ! 1) 901000]\<rparr>]" by simp
  have f1: "find (\<lambda>c. c_id c = ''c1'') courts_full = Some (courts_full ! 0)" by code_simp
  have dup: "isDuplicate (last [round1]) (newMatchFor roster8 (courts_full ! 0) 2000)
                (playerNames (newMatchFor roster8 (courts_full ! 0) 2000))" by code_simp
  from C9_round_grouping [OF f1, where rounds = "[round1]" and players = roster8
      and timestamp = 2000 and newId = "''r2''"] w dup
  have c: "recordMatchStart roster8 courts_full ''c1'' 2000 ''r2'' [round1] = [round1]"
    by blast
  from f w a nw b f1 dup c show ?thesis by (intro conjI)
qed

text \<open>
  The claim as stated fails inside the window when the last round already has a match
  of this court with these players: nothing is recorded and the rounds are unchanged.
\<close>

theorem C9_counterexample:
  "withinWindow 2000 [round1] \<and>
   recordMatchStart roster8 courts_full ''c1'' 2000 ''r2'' [round1] = [round1] \<and>
   recordMatchStart roster8 courts_full ''c1'' 2000 ''r2'' [round1]
     \<noteq> joinLastRound [round1] (newMatchFor roster8 (courts_full ! 0) 2000)"
  by code_simp

subsection \<open>C10: status\<close>

text \<open>
  Claim C10. The engine never changes a status: at every position the output court has
  the status of the input court.
\<close>

theorem C10_status_unchanged:
  "\<forall>i<length currentCourts.
     status (smartAllocation rnd allPlayers currentCourts history ! i)
       = status (currentCourts ! i)"
  by (simp add: smartAllocation_def mergeCourt_status)

theorem C10_status_unchanged_witness:
  "status (smartAllocation rnd0 roster8 courts_mixed [] ! 0) = Playing \<and>
   status (smartAllocation rnd0 roster8 courts_mixed [] ! 1) = Allocating"
  using C10_status_unchanged [of courts_mixed rnd0 roster8 "[]"]
  by (simp add: courts_mixed_def createCourt_def)

end
